theory Spec2Isabelle
  imports Main "HOL-Library.Word"
begin

section \<open>Page identity and sizing (storage/buffer/helper.hpp)\<close>

text \<open>
  The header selects the base page size and the list of size classes by platform
  (\<^verbatim>\<open>#ifdef __APPLE__ ... #elif __linux__\<close>). The platform is a parameter of the model.
  \<^verbatim>\<open>size_t\<close> is a 64-bit word.
\<close>

datatype Platform = Apple | Linux

definition OS_PAGE_SIZE :: "Platform \<Rightarrow> 64 word" where
  "OS_PAGE_SIZE pf = (case pf of Apple \<Rightarrow> 16384 | Linux \<Rightarrow> 4096)"

datatype PageSizeType =
  KiB4 | KiB8 | KiB16 | KiB32 | KiB64 | KiB128 | KiB256 | KiB512 | MiB1 | MiB2

text \<open>\<^verbatim>\<open>magic_enum::enum_values<PageSizeType>()\<close>: the enumerators in declaration order.\<close>

definition enum_values :: "Platform \<Rightarrow> PageSizeType list" where
  "enum_values pf = (case pf of
       Apple \<Rightarrow> [KiB16, KiB32, KiB64, KiB128, KiB256, KiB512, MiB1, MiB2]
     | Linux \<Rightarrow> [KiB4, KiB8, KiB16, KiB32, KiB64, KiB128, KiB256, KiB512, MiB1, MiB2])"

text \<open>
  \<^verbatim>\<open>static_cast<size_t>(size)\<close>: the position of the enumerator in its enum
  (an unscoped count from 0). For a constructor that is not an enumerator of the
  platform the count runs to the end of the list; no caller passes one.
\<close>

fun position_in :: "PageSizeType list \<Rightarrow> PageSizeType \<Rightarrow> nat" where
  "position_in [] s = 0"
| "position_in (t # ts) s = (if t = s then 0 else Suc (position_in ts s))"

definition enum_integer :: "Platform \<Rightarrow> PageSizeType \<Rightarrow> nat" where
  "enum_integer pf s = position_in (enum_values pf) s"

definition bytes_for_size_type :: "Platform \<Rightarrow> PageSizeType \<Rightarrow> 64 word" where
  "bytes_for_size_type pf s = push_bit (enum_integer pf s) (OS_PAGE_SIZE pf)"

datatype error = CannotFit "64 word"

text \<open>
  The \<^verbatim>\<open>for\<close> loop of \<^verbatim>\<open>find_fitting_page_size_type\<close> over the enumerators; falling
  out of the loop reaches \<^verbatim>\<open>Fail(...)\<close>, which carries the byte count in its message.
\<close>

fun find_fitting_loop :: "Platform \<Rightarrow> 64 word \<Rightarrow> PageSizeType list \<Rightarrow> error + PageSizeType" where
  "find_fitting_loop pf bytes [] = Inl (CannotFit bytes)"
| "find_fitting_loop pf bytes (page_size_type # rest) =
     (if bytes \<le> bytes_for_size_type pf page_size_type then Inr page_size_type
      else find_fitting_loop pf bytes rest)"

definition find_fitting_page_size_type :: "Platform \<Rightarrow> 64 word \<Rightarrow> error + PageSizeType" where
  "find_fitting_page_size_type pf bytes = find_fitting_loop pf bytes (enum_values pf)"

definition NUM_PAGE_SIZE_TYPES :: "Platform \<Rightarrow> nat" where
  "NUM_PAGE_SIZE_TYPES pf = length (enum_values pf)"

definition MIN_PAGE_SIZE_TYPE :: "Platform \<Rightarrow> PageSizeType" where
  "MIN_PAGE_SIZE_TYPE pf = enum_values pf ! 0"

definition MAX_PAGE_SIZE_TYPE :: "Platform \<Rightarrow> PageSizeType" where
  "MAX_PAGE_SIZE_TYPE pf = enum_values pf ! (NUM_PAGE_SIZE_TYPES pf - 1)"

text \<open>
  \<^verbatim>\<open>struct PageID\<close>: three bit-fields of one 64-bit word. \<^verbatim>\<open>PAGE_SIZE_TYPE_BITS\<close> is
  \<^verbatim>\<open>static_log2<NUM_PAGE_SIZE_TYPES> + 1\<close>, which is 4 for both 8 and 10 size classes, so
  the index has 59 bits. The defaulted \<^verbatim>\<open>operator<=>\<close> makes equality member-wise,
  which is the equality of the record.
\<close>

record PageID =
  valid :: bool
  size_type :: "4 word"
  index :: "59 word"

definition PageID_ctor :: "Platform \<Rightarrow> PageSizeType \<Rightarrow> 64 word \<Rightarrow> bool \<Rightarrow> PageID" where
  "PageID_ctor pf st idx v =
     \<lparr>valid = v, size_type = of_nat (enum_integer pf st), index = ucast idx\<rparr>"

definition INVALID_PAGE_ID :: "Platform \<Rightarrow> PageID" where
  "INVALID_PAGE_ID pf = PageID_ctor pf (MIN_PAGE_SIZE_TYPE pf) 0 False"

section \<open>Buffer-managed pointer (storage/buffer/buffer_managed_ptr.hpp)\<close>

text \<open>
  \<^verbatim>\<open>BufferManagedPtr<PointedType>\<close> holds \<^verbatim>\<open>_page_id\<close> and \<^verbatim>\<open>_offset\<close>
  (\<^verbatim>\<open>std::ptrdiff_t\<close>, a 64-bit two's-complement word). The pointed-to type is a
  type parameter that no field mentions. Raw addresses are 64-bit words, the null
  pointer is 0.

  The buffer manager's \<^verbatim>\<open>get_page\<close> is defined outside this header; it enters the
  model as the parameter \<open>bm\<close>, the address \<^verbatim>\<open>page->data.data()\<close> at which the
  manager currently holds each page.
\<close>

datatype 't BufferManagedPtr =
  BufferManagedPtr (get_page_id: PageID) (get_offset: "64 word")

type_synonym BufferManager = "PageID \<Rightarrow> 64 word"

text \<open>\<^verbatim>\<open>BufferManagedPtr(pointer ptr = 0) : _page_id(INVALID_PAGE_ID), _offset(0) {}\<close>\<close>

definition from_pointer :: "Platform \<Rightarrow> 64 word \<Rightarrow> 't BufferManagedPtr" where
  "from_pointer pf ptr = BufferManagedPtr (INVALID_PAGE_ID pf) 0"

definition get_pointer :: "Platform \<Rightarrow> BufferManager \<Rightarrow> 't BufferManagedPtr \<Rightarrow> 64 word" where
  "get_pointer pf bm p =
     (if get_page_id p = INVALID_PAGE_ID pf then 0
      else bm (get_page_id p) + get_offset p)"

text \<open>\<^verbatim>\<open>get()\<close> is \<^verbatim>\<open>static_cast<pointer>(get_pointer())\<close>: the same address.\<close>

definition get :: "Platform \<Rightarrow> BufferManager \<Rightarrow> 't BufferManagedPtr \<Rightarrow> 64 word" where
  "get pf bm p = get_pointer pf bm p"

definition operator_not :: "Platform \<Rightarrow> BufferManager \<Rightarrow> 't BufferManagedPtr \<Rightarrow> bool" where
  "operator_not pf bm p = (get pf bm p = 0)"

definition operator_bool :: "Platform \<Rightarrow> 't BufferManagedPtr \<Rightarrow> bool" where
  "operator_bool pf p = (get_page_id p = INVALID_PAGE_ID pf \<or> get_offset p = 0)"

definition operator_plus :: "'t BufferManagedPtr \<Rightarrow> 64 word \<Rightarrow> 't BufferManagedPtr" where
  "operator_plus p off = BufferManagedPtr (get_page_id p) (get_offset p + off)"

definition operator_minus :: "'t BufferManagedPtr \<Rightarrow> 64 word \<Rightarrow> 't BufferManagedPtr" where
  "operator_minus p off = BufferManagedPtr (get_page_id p) (get_offset p - off)"

text \<open>
  The bodies of \<^verbatim>\<open>operator+=\<close> and \<^verbatim>\<open>operator-=\<close> are commented out in the
  source; what is left is \<^verbatim>\<open>return *this;\<close>.
\<close>

definition operator_plus_assign :: "'t BufferManagedPtr \<Rightarrow> 64 word \<Rightarrow> 't BufferManagedPtr" where
  "operator_plus_assign p off = p"

definition operator_minus_assign :: "'t BufferManagedPtr \<Rightarrow> 64 word \<Rightarrow> 't BufferManagedPtr" where
  "operator_minus_assign p off = p"

definition operator_pre_increment :: "'t BufferManagedPtr \<Rightarrow> 't BufferManagedPtr" where
  "operator_pre_increment p = BufferManagedPtr (get_page_id p) (get_offset p + 1)"

definition operator_pre_decrement :: "'t BufferManagedPtr \<Rightarrow> 't BufferManagedPtr" where
  "operator_pre_decrement p = BufferManagedPtr (get_page_id p) (get_offset p - 1)"

text \<open>
  Comparisons. The friend \<^verbatim>\<open>operator==\<close> and \<^verbatim>\<open>operator<\<close> take two pointers of
  the same pointed-to type; the free templates \<^verbatim>\<open>operator==\<close>, \<^verbatim>\<open>operator!=\<close> and
  \<^verbatim>\<open>operator<=\<close> take pointers of two pointed-to types. Raw addresses compare as
  unsigned words.
\<close>

definition operator_eq ::
  "Platform \<Rightarrow> BufferManager \<Rightarrow> 't BufferManagedPtr \<Rightarrow> 't BufferManagedPtr \<Rightarrow> bool" where
  "operator_eq pf bm ptr1 ptr2 = (get pf bm ptr1 = get pf bm ptr2)"

definition operator_less ::
  "Platform \<Rightarrow> BufferManager \<Rightarrow> 't BufferManagedPtr \<Rightarrow> 't BufferManagedPtr \<Rightarrow> bool" where
  "operator_less pf bm pt1 pt2 = (get pf bm pt1 < get pf bm pt2)"

definition operator_eq_free ::
  "Platform \<Rightarrow> BufferManager \<Rightarrow> 't1 BufferManagedPtr \<Rightarrow> 't2 BufferManagedPtr \<Rightarrow> bool" where
  "operator_eq_free pf bm ptr1 ptr2 = (get pf bm ptr1 = get pf bm ptr2)"

definition operator_neq_free ::
  "Platform \<Rightarrow> BufferManager \<Rightarrow> 't1 BufferManagedPtr \<Rightarrow> 't2 BufferManagedPtr \<Rightarrow> bool" where
  "operator_neq_free pf bm ptr1 ptr2 = (get pf bm ptr1 \<noteq> get pf bm ptr2)"

definition operator_le_free ::
  "Platform \<Rightarrow> BufferManager \<Rightarrow> 't1 BufferManagedPtr \<Rightarrow> 't2 BufferManagedPtr \<Rightarrow> bool" where
  "operator_le_free pf bm pt1 pt2 = (get pf bm pt1 \<le> get pf bm pt2)"


text \<open>
  An example buffer manager for concrete evaluation: the page with index 0 is held at
  address 65536, every other page at 69632 (one 4 KiB page further).
\<close>

definition two_pages :: BufferManager where
  "two_pages pid = (if index pid = 0 then 65536 else 69632)"

section \<open>Tasks and their dependencies\<close>

text \<open>
  The scheduler's implementation (\<^verbatim>\<open>abstract_task.cpp\<close>, \<^verbatim>\<open>node_queue_scheduler.cpp\<close>,
  \<^verbatim>\<open>worker.cpp\<close>, \<^verbatim>\<open>task_queue.cpp\<close>) is not among the sources; only the class
  declaration of \<^verbatim>\<open>NodeQueueScheduler\<close> and the tests of \<^verbatim>\<open>scheduler_test.cpp\<close> are. The
  task operations of this section follow sections 3, 4.9, 4.10 and 4.11 of the
  specification; the payloads and the order of the calls are those of the tests. A run
  is an interleaving of atomic steps: the calls of the thread that builds and schedules
  the tasks, and the begin and the end of a task's execution by any of the workers.
  Tasks are named by their position in the list of tasks.
\<close>

text \<open>Modelled from the spec: the task states of section 3 (\<^verbatim>\<open>abstract_task.hpp\<close> is missing).\<close>

datatype TaskState = CREATED | SCHEDULED | READY | RUNNING | DONE

text \<open>
  The payloads of the tests' \<^verbatim>\<open>JobTask\<close>s on the shared \<^verbatim>\<open>std::atomic_uint32_t\<close>:
  \<^verbatim>\<open>counter.compare_exchange_strong(current_value, desired)\<close> under \<^verbatim>\<open>ASSERT_TRUE\<close>,
  and \<^verbatim>\<open>counter += n\<close>.
\<close>

datatype Payload = CompareExchange "32 word" "32 word" | FetchAdd "32 word"

text \<open>
  Modelled from the spec: the task of section 3 (\<^verbatim>\<open>abstract_task.hpp\<close> is missing), with
  its state, predecessor count, successor list and payload. The stored state is CREATED,
  SCHEDULED, RUNNING or DONE; READY is the condition \<open>is_ready\<close> below.
\<close>

record Task =
  task_state :: TaskState
  predecessor_count :: nat
  successors :: "nat list"
  payload :: Payload

text \<open>
  Modelled from the spec: the tasks known to the scheduler (its implementation is
  missing), together with the state the tests' payloads share: the counter and the
  number of \<^verbatim>\<open>ASSERT_TRUE(successful)\<close> that failed.
\<close>

record Scheduler =
  tasks :: "Task list"
  counter :: "32 word"
  failed_assertions :: nat

definition initial_scheduler :: Scheduler where
  "initial_scheduler = \<lparr>tasks = [], counter = 0, failed_assertions = 0\<rparr>"

text \<open>
  Modelled from the spec: "A task becomes READY when predecessor count reaches zero"
  (section 3), and only a scheduled task is delivered to a queue (section 4.9); the task
  queue, which "holds READY tasks" (section 4.10), is missing.
\<close>

definition is_ready :: "Task \<Rightarrow> bool" where
  "is_ready t = (task_state t = SCHEDULED \<and> predecessor_count t = 0)"

definition begun :: "Task \<Rightarrow> bool" where
  "begun t = (task_state t = RUNNING \<or> task_state t = DONE)"

text \<open>
  Modelled from the spec: the construction of a task (\<^verbatim>\<open>std::make_shared<JobTask>\<close>; the
  constructor is missing): no predecessors, no successors.
\<close>

definition make_task :: "Payload \<Rightarrow> Scheduler \<Rightarrow> Scheduler option" where
  "make_task pl s =
     Some (s\<lparr>tasks := tasks s @
        [\<lparr>task_state = CREATED, predecessor_count = 0, successors = [], payload = pl\<rparr>]\<rparr>)"

definition add_successor :: "nat \<Rightarrow> Task \<Rightarrow> Task" where
  "add_successor b t = t\<lparr>successors := successors t @ [b]\<rparr>"

definition increment_predecessors :: "Task \<Rightarrow> Task" where
  "increment_predecessors t = t\<lparr>predecessor_count := predecessor_count t + 1\<rparr>"

text \<open>
  Modelled from the spec: the missing \<^verbatim>\<open>AbstractTask::set_as_predecessor_of\<close>, "adds the
  reverse edge; increments \<open>other.predecessor_count\<close>. Legal only before either task
  begins execution" (section 4.9).
\<close>

definition set_as_predecessor_of :: "nat \<Rightarrow> nat \<Rightarrow> Scheduler \<Rightarrow> Scheduler option" where
  "set_as_predecessor_of a b s =
     (if a < length (tasks s) \<and> b < length (tasks s) \<and>
         \<not> begun (tasks s ! a) \<and> \<not> begun (tasks s ! b)
      then (let ts1 = (tasks s)[a := add_successor b (tasks s ! a)];
                ts2 = ts1[b := increment_predecessors (ts1 ! b)]
            in Some (s\<lparr>tasks := ts2\<rparr>))
      else None)"

text \<open>
  Modelled from the spec: the missing \<^verbatim>\<open>AbstractTask::schedule\<close>, "marks SCHEDULED; if
  already READY, delivers to the chosen queue; otherwise waits for predecessors.
  Scheduling an already-SCHEDULED task is a no-op" (section 4.9).
\<close>

definition schedule :: "nat \<Rightarrow> Scheduler \<Rightarrow> Scheduler option" where
  "schedule t s =
     (if t < length (tasks s)
      then (if task_state (tasks s ! t) = CREATED
            then Some (s\<lparr>tasks := (tasks s)[t := (tasks s ! t)\<lparr>task_state := SCHEDULED\<rparr>]\<rparr>)
            else Some s)
      else None)"

text \<open>
  Modelled from the spec: a worker begins to execute a task (the missing
  \<^verbatim>\<open>Worker\<close> and \<^verbatim>\<open>AbstractTask::execute\<close>): it takes a READY task, from a queue or
  inline as the successor of the task it has just finished (sections 4.9 and 4.11).
\<close>

definition begin_execution :: "nat \<Rightarrow> Scheduler \<Rightarrow> Scheduler option" where
  "begin_execution t s =
     (if t < length (tasks s) \<and> is_ready (tasks s ! t)
      then Some (s\<lparr>tasks := (tasks s)[t := (tasks s ! t)\<lparr>task_state := RUNNING\<rparr>]\<rparr>)
      else None)"

text \<open>The effect of a test payload on the shared counter, each an atomic operation.\<close>

fun run_payload :: "Payload \<Rightarrow> Scheduler \<Rightarrow> Scheduler" where
  "run_payload (CompareExchange current_value desired) s =
     (if counter s = current_value then s\<lparr>counter := desired\<rparr>
      else s\<lparr>failed_assertions := failed_assertions s + 1\<rparr>)"
| "run_payload (FetchAdd n) s = s\<lparr>counter := counter s + n\<rparr>"

text \<open>
  Modelled from the spec: "Successors are notified on DONE, decrementing their counts"
  (section 3; the notification of \<^verbatim>\<open>abstract_task.cpp\<close> is missing).
\<close>

fun notify_successors :: "nat list \<Rightarrow> Task list \<Rightarrow> Task list" where
  "notify_successors [] ts = ts"
| "notify_successors (b # bs) ts =
     notify_successors bs (ts[b := (ts ! b)\<lparr>predecessor_count := predecessor_count (ts ! b) - 1\<rparr>])"

text \<open>
  Modelled from the spec: the end of the missing \<^verbatim>\<open>AbstractTask::execute\<close>, "invokes
  payload exactly once, transitions to DONE, notifies successors" (section 4.9). The
  payloads of the tests are single atomic operations, so the payload takes effect in the
  step that completes the task.
\<close>

definition finish_execution :: "nat \<Rightarrow> Scheduler \<Rightarrow> Scheduler option" where
  "finish_execution t s =
     (if t < length (tasks s) \<and> task_state (tasks s ! t) = RUNNING
      then (let s1 = run_payload (payload (tasks s ! t)) s;
                ts1 = (tasks s1)[t := (tasks s1 ! t)\<lparr>task_state := DONE\<rparr>]
            in Some (s1\<lparr>tasks := notify_successors (successors (tasks s ! t)) ts1\<rparr>))
      else None)"

text \<open>
  Modelled from the spec: the atomic steps of a run. A step that is not legal in the
  state it meets is \<open>None\<close>, and so is a run that contains one.
\<close>

datatype SchedulerStep =
  MakeTask Payload | SetAsPredecessorOf nat nat | Schedule nat | Begin nat | Finish nat

fun sched_step :: "SchedulerStep \<Rightarrow> Scheduler \<Rightarrow> Scheduler option" where
  "sched_step (MakeTask pl) s = make_task pl s"
| "sched_step (SetAsPredecessorOf a b) s = set_as_predecessor_of a b s"
| "sched_step (Schedule t) s = schedule t s"
| "sched_step (Begin t) s = begin_execution t s"
| "sched_step (Finish t) s = finish_execution t s"

fun sched_run :: "SchedulerStep list \<Rightarrow> Scheduler \<Rightarrow> Scheduler option" where
  "sched_run [] s = Some s"
| "sched_run (a # as) s = (case sched_step a s of None \<Rightarrow> None | Some s' \<Rightarrow> sched_run as s')"

definition is_worker_step :: "SchedulerStep \<Rightarrow> bool" where
  "is_worker_step x = (case x of Begin _ \<Rightarrow> True | Finish _ \<Rightarrow> True | _ \<Rightarrow> False)"

text \<open>
  The task graph: \<open>a\<close> is a direct predecessor of \<open>b\<close> when \<open>b\<close> is in the successor
  list of \<open>a\<close>; the transitive predecessors are the transitive closure.
\<close>

definition edges :: "Scheduler \<Rightarrow> (nat \<times> nat) set" where
  "edges s = {(a, b). a < length (tasks s) \<and> b \<in> set (successors (tasks s ! a))}"

text \<open>
  Invariants of the reachable task lists: successor lists name existing tasks, each
  predecessor count is the number of edges from tasks that are not DONE, and a task
  that has begun has all its direct predecessors DONE.
\<close>

definition weight :: "nat \<Rightarrow> Task \<Rightarrow> nat" where
  "weight b t = (if task_state t = DONE then 0 else count_list (successors t) b)"

definition pending :: "Task list \<Rightarrow> nat \<Rightarrow> nat" where
  "pending ts b = sum_list (map (weight b) ts)"

definition succ_bound :: "Task list \<Rightarrow> bool" where
  "succ_bound ts = (\<forall>a < length ts. \<forall>b \<in> set (successors (ts ! a)). b < length ts)"

definition counts :: "Task list \<Rightarrow> bool" where
  "counts ts = (\<forall>b < length ts. predecessor_count (ts ! b) = pending ts b)"

definition ordered :: "Task list \<Rightarrow> bool" where
  "ordered ts = (\<forall>a < length ts. \<forall>b \<in> set (successors (ts ! a)).
       begun (ts ! b) \<longrightarrow> task_state (ts ! a) = DONE)"

definition task_inv :: "Task list \<Rightarrow> bool" where
  "task_inv ts = (succ_bound ts \<and> counts ts \<and> ordered ts)"

subsection \<open>The linear chain of the tests\<close>

text \<open>
  \<^verbatim>\<open>SchedulerTest::stress_linear_dependencies\<close> of \<^verbatim>\<open>scheduler_test.cpp\<close>: three tasks
  that compare-and-swap the counter from 0 to 1, from 1 to 2 and from 2 to 3,
  \<^verbatim>\<open>task1->set_as_predecessor_of(task2)\<close>, \<^verbatim>\<open>task2->set_as_predecessor_of(task3)\<close>, and
  then \<^verbatim>\<open>task3->schedule(); task1->schedule(); task2->schedule();\<close>. The tasks
  \<^verbatim>\<open>task1\<close>, \<^verbatim>\<open>task2\<close>, \<^verbatim>\<open>task3\<close> are the tasks 0, 1, 2.
\<close>

definition stress_linear_dependencies_build :: "SchedulerStep list" where
  "stress_linear_dependencies_build =
     [MakeTask (CompareExchange 0 1), MakeTask (CompareExchange 1 2), MakeTask (CompareExchange 2 3),
      SetAsPredecessorOf 0 1, SetAsPredecessorOf 1 2]"

definition stress_linear_dependencies_schedule :: "SchedulerStep list" where
  "stress_linear_dependencies_schedule = [Schedule 2, Schedule 0, Schedule 1]"

definition linear_chain :: Scheduler where
  "linear_chain = the (sched_run stress_linear_dependencies_build initial_scheduler)"

text \<open>The invariant of the runs on the linear chain.\<close>

definition chain_task :: "TaskState \<Rightarrow> nat \<Rightarrow> nat list \<Rightarrow> Payload \<Rightarrow> Task" where
  "chain_task st n su pl = \<lparr>task_state = st, predecessor_count = n, successors = su, payload = pl\<rparr>"

definition chain_inv :: "Scheduler \<Rightarrow> bool" where
  "chain_inv s = (\<exists>s0 s1 s2.
      tasks s =
        [chain_task s0 0 [1] (CompareExchange 0 1),
         chain_task s1 (if s0 = DONE then 0 else 1) [2] (CompareExchange 1 2),
         chain_task s2 (if s1 = DONE then 0 else 1) [] (CompareExchange 2 3)] \<and>
      (s1 = RUNNING \<or> s1 = DONE \<longrightarrow> s0 = DONE) \<and>
      (s2 = RUNNING \<or> s2 = DONE \<longrightarrow> s1 = DONE) \<and>
      counter s = (if s2 = DONE then 3 else if s1 = DONE then 2 else if s0 = DONE then 1 else 0) \<and>
      failed_assertions s = 0)"

text \<open>
  One run on the linear chain, that of a scheduler that executes a task as soon as it
  is ready, and the states it passes before the last task begins and at its end.
\<close>

definition immediate_order :: "SchedulerStep list" where
  "immediate_order =
     [Schedule 2, Schedule 0, Begin 0, Finish 0, Schedule 1, Begin 1, Finish 1, Begin 2, Finish 2]"

definition chain_done :: Scheduler where
  "chain_done =
     \<lparr>tasks =
        [\<lparr>task_state = DONE, predecessor_count = 0, successors = [1], payload = CompareExchange 0 1\<rparr>,
         \<lparr>task_state = DONE, predecessor_count = 0, successors = [2], payload = CompareExchange 1 2\<rparr>,
         \<lparr>task_state = DONE, predecessor_count = 0, successors = [], payload = CompareExchange 2 3\<rparr>],
      counter = 3, failed_assertions = 0\<rparr>"

definition chain_before_last :: Scheduler where
  "chain_before_last =
     \<lparr>tasks =
        [\<lparr>task_state = DONE, predecessor_count = 0, successors = [1], payload = CompareExchange 0 1\<rparr>,
         \<lparr>task_state = DONE, predecessor_count = 0, successors = [2], payload = CompareExchange 1 2\<rparr>,
         \<lparr>task_state = SCHEDULED, predecessor_count = 0, successors = [], payload = CompareExchange 2 3\<rparr>],
      counter = 2, failed_assertions = 0\<rparr>"

section \<open>A single worker and nested tasks\<close>

text \<open>
  The worker and \<^verbatim>\<open>wait_for_tasks\<close> (\<^verbatim>\<open>worker.cpp\<close>, \<^verbatim>\<open>abstract_scheduler.cpp\<close>) are
  not among the sources. The worker of this section follows sections 4.9, 4.10, 4.11 and
  4.12 of the specification for a topology of one node with one worker; the payloads
  are those of \<^verbatim>\<open>SchedulerTest.SingleWorkerGuaranteeProgress\<close> and
  \<^verbatim>\<open>SchedulerTest::increment_counter_in_subtasks\<close>.
\<close>

text \<open>
  The payloads of the tests: \<^verbatim>\<open>++counter\<close>, \<^verbatim>\<open>task_done = true\<close>, and a payload that
  makes and schedules a list of jobs and then calls \<^verbatim>\<open>wait_for_tasks\<close> on them.
\<close>

datatype Job = Increment | SetTaskDone | SpawnAndWait "Job list"

text \<open>
  Modelled from the spec: the one worker (\<^verbatim>\<open>worker.cpp\<close> is missing) with the task queue
  of its node, a FIFO of READY tasks (section 4.10); the tasks it is executing, innermost
  first, each with the tasks its \<^verbatim>\<open>wait_for_tasks\<close> waits for; the tasks that are DONE;
  the next unused task id; and the counter and the flag of the tests.
\<close>

record Worker =
  queue :: "(nat \<times> Job) list"
  call_stack :: "(nat \<times> nat list) list"
  finished :: "nat list"
  next_id :: nat
  shared_counter :: "32 word"
  task_done :: bool

text \<open>
  Modelled from the spec: \<^verbatim>\<open>schedule\<close> on tasks without predecessors, which are READY and
  are delivered to the queue of the one node (sections 4.9 and 4.12; the scheduler's
  \<^verbatim>\<open>schedule\<close> is missing), in the order of the calls.
\<close>

definition schedule_jobs :: "Job list \<Rightarrow> Worker \<Rightarrow> Worker \<times> nat list" where
  "schedule_jobs jobs w =
     (let ids = [next_id w ..< next_id w + length jobs]
      in (w\<lparr>queue := queue w @ zip ids jobs, next_id := next_id w + length jobs\<rparr>, ids))"

text \<open>
  The worker starts a task: it runs the payload up to its \<^verbatim>\<open>wait_for_tasks\<close>, if it has
  one. A payload without one waits for nothing.
\<close>

fun execute :: "nat \<Rightarrow> Job \<Rightarrow> Worker \<Rightarrow> Worker" where
  "execute tid Increment w =
     w\<lparr>shared_counter := shared_counter w + 1, call_stack := (tid, []) # call_stack w\<rparr>"
| "execute tid SetTaskDone w =
     w\<lparr>task_done := True, call_stack := (tid, []) # call_stack w\<rparr>"
| "execute tid (SpawnAndWait jobs) w =
     (let (w1, ids) = schedule_jobs jobs w
      in w1\<lparr>call_stack := (tid, ids) # call_stack w1\<rparr>)"

text \<open>
  Modelled from the spec: step 1 of the worker's loop, "Pop from local queue"
  (section 4.11; \<^verbatim>\<open>worker.cpp\<close> is missing). With one node there is no peer to steal
  from; on an empty queue the worker blocks (\<open>None\<close>).
\<close>

definition pop_and_execute :: "Worker \<Rightarrow> Worker option" where
  "pop_and_execute w =
     (case queue w of
        [] \<Rightarrow> None
      | (tid, job) # rest \<Rightarrow> Some (execute tid job (w\<lparr>queue := rest\<rparr>)))"

text \<open>
  Modelled from the spec: one step of the worker (\<^verbatim>\<open>worker.cpp\<close> and \<^verbatim>\<open>wait_for_tasks\<close>
  are missing). Outside any task it runs its loop. Inside \<^verbatim>\<open>wait_for_tasks\<close>, "a worker
  blocked on a dependency set continues the main loop; it returns only when all
  specified tasks are DONE" (section 4.11); when it returns the payload ends and the
  task is DONE.
\<close>

definition worker_step :: "Worker \<Rightarrow> Worker option" where
  "worker_step w =
     (case call_stack w of
        [] \<Rightarrow> pop_and_execute w
      | (tid, waited) # outer \<Rightarrow>
          if \<forall>t \<in> set waited. t \<in> set (finished w)
          then Some (w\<lparr>call_stack := outer, finished := tid # finished w\<rparr>)
          else pop_and_execute w)"

text \<open>
  The worker's run with fuel: \<open>None\<close> when the fuel runs out, the state in which the
  worker blocks otherwise. \<open>worker_steps k\<close> is the state after exactly \<open>k\<close> steps.
\<close>

fun worker_loop :: "nat \<Rightarrow> Worker \<Rightarrow> Worker option" where
  "worker_loop 0 w = None"
| "worker_loop (Suc fuel) w =
     (case worker_step w of None \<Rightarrow> Some w | Some w' \<Rightarrow> worker_loop fuel w')"

fun worker_steps :: "nat \<Rightarrow> Worker \<Rightarrow> Worker option" where
  "worker_steps 0 w = Some w"
| "worker_steps (Suc k) w = (case worker_step w of None \<Rightarrow> None | Some w' \<Rightarrow> worker_steps k w')"

text \<open>
  The scheduler with its one worker after a thread that is not a worker has scheduled
  the given jobs.
\<close>

definition single_worker :: "Job list \<Rightarrow> Worker" where
  "single_worker jobs =
     fst (schedule_jobs jobs
       \<lparr>queue = [], call_stack = [], finished = [], next_id = 0, shared_counter = 0,
         task_done = False\<rparr>)"

text \<open>A deadlock: the worker is inside a task and can take no step.\<close>

definition deadlocked :: "Worker \<Rightarrow> bool" where
  "deadlocked w = (call_stack w \<noteq> [] \<and> worker_step w = None)"

text \<open>The measure of the remaining work, and the invariant of the worker's states.\<close>

fun job_size :: "Job \<Rightarrow> nat" where
  "job_size (SpawnAndWait jobs) = Suc (sum_list (map job_size jobs))"
| "job_size Increment = 1"
| "job_size SetTaskDone = 1"

fun spawned :: "Job \<Rightarrow> Job list" where
  "spawned (SpawnAndWait jobs) = jobs"
| "spawned Increment = []"
| "spawned SetTaskDone = []"

definition queued_size :: "(nat \<times> Job) list \<Rightarrow> nat" where
  "queued_size q = sum_list (map (job_size \<circ> snd) q)"

definition remaining_steps :: "Worker \<Rightarrow> nat" where
  "remaining_steps w = 2 * queued_size (queue w) + length (call_stack w)"

fun stack_ok :: "nat set \<Rightarrow> nat set \<Rightarrow> (nat \<times> nat list) list \<Rightarrow> bool" where
  "stack_ok avail higher [] = True"
| "stack_ok avail higher ((tid, waited) # outer) =
     (set waited \<subseteq> avail \<union> higher \<and> stack_ok avail (insert tid higher) outer)"

definition worker_inv :: "Worker \<Rightarrow> bool" where
  "worker_inv w =
     (stack_ok (set (finished w) \<union> fst ` set (queue w)) {} (call_stack w) \<and>
      set (finished w) \<union> fst ` set (queue w) \<union> fst ` set (call_stack w) = {0 ..< next_id w})"

text \<open>
  The workloads of \<^verbatim>\<open>SchedulerTest.SingleWorkerGuaranteeProgress\<close> (a task that spawns
  one subtask setting the flag, and waits for it) and of
  \<^verbatim>\<open>SchedulerTest::increment_counter_in_subtasks\<close> (ten tasks, each spawning three
  increments and waiting for them), with two states of the first.
\<close>

definition single_worker_guarantee_progress :: "Job list" where
  "single_worker_guarantee_progress = [SpawnAndWait [SetTaskDone]]"

definition increment_counter_in_subtasks :: "Job list" where
  "increment_counter_in_subtasks = replicate 10 (SpawnAndWait (replicate 3 Increment))"

definition progress_final :: Worker where
  "progress_final =
     \<lparr>queue = [], call_stack = [], finished = [0, 1], next_id = 2, shared_counter = 0,
       task_done = True\<rparr>"

definition progress_waiting :: Worker where
  "progress_waiting =
     \<lparr>queue = [(1, SetTaskDone)], call_stack = [(0, [1])], finished = [], next_id = 2,
       shared_counter = 0, task_done = False\<rparr>"

section \<open>Facts about the size classes\<close>


lemma bytes_Linux:
  "map (bytes_for_size_type Linux) (enum_values Linux) =
     [4096, 8192, 16384, 32768, 65536, 131072, 262144, 524288, 1048576, 2097152]"
  by (simp add: bytes_for_size_type_def enum_integer_def enum_values_def OS_PAGE_SIZE_def)

lemma bytes_Apple:
  "map (bytes_for_size_type Apple) (enum_values Apple) =
     [16384, 32768, 65536, 131072, 262144, 524288, 1048576, 2097152]"
  by (simp add: bytes_for_size_type_def enum_integer_def enum_values_def OS_PAGE_SIZE_def)

lemma sorted_sizes:
  "sorted_wrt (<) (map (bytes_for_size_type pf) (enum_values pf))"
proof (cases pf)
  case Apple then show ?thesis unfolding Apple bytes_Apple by simp
next
  case Linux then show ?thesis unfolding Linux bytes_Linux by simp
qed

lemma sizes_strict_mono:
  assumes "i < k" "k < length (enum_values pf)"
  shows "bytes_for_size_type pf (enum_values pf ! i) < bytes_for_size_type pf (enum_values pf ! k)"
proof -
  let ?m = "map (bytes_for_size_type pf) (enum_values pf)"
  have "?m ! i < ?m ! k"
    using sorted_sizes[of pf] assms by (simp add: sorted_wrt_iff_nth_less)
  then show ?thesis using assms by simp
qed

lemma enum_integer_nth:
  "i < length (enum_values pf) \<Longrightarrow> enum_integer pf (enum_values pf ! i) = i"
proof -
  have "map (enum_integer pf) (enum_values pf) = [0 ..< length (enum_values pf)]"
    by (cases pf) (simp_all add: enum_integer_def enum_values_def upt_rec)
  then have "map (enum_integer pf) (enum_values pf) ! i = [0 ..< length (enum_values pf)] ! i" by simp
  then show "i < length (enum_values pf) \<Longrightarrow> enum_integer pf (enum_values pf ! i) = i" by simp
qed

lemma no_overflow:
  "t \<in> set (enum_values pf) \<Longrightarrow>
     unat (bytes_for_size_type pf t) = unat (OS_PAGE_SIZE pf) * 2 ^ enum_integer pf t"
  by (cases pf) (auto simp add: bytes_for_size_type_def enum_integer_def enum_values_def OS_PAGE_SIZE_def)


lemma find_fitting_loop_Inr:
  "find_fitting_loop pf bytes ts = Inr t \<Longrightarrow>
     \<exists>i < length ts. ts ! i = t \<and> bytes \<le> bytes_for_size_type pf t \<and>
        (\<forall>j < i. \<not> bytes \<le> bytes_for_size_type pf (ts ! j))"
proof (induction ts)
  case Nil then show ?case by simp
next
  case (Cons a ts)
  show ?case
  proof (cases "bytes \<le> bytes_for_size_type pf a")
    case True
    with Cons.prems have "a = t" by simp
    with True show ?thesis by (intro exI[of _ 0]) simp
  next
    case False
    with Cons.prems have "find_fitting_loop pf bytes ts = Inr t" by simp
    from Cons.IH[OF this] obtain i where i: "i < length ts" "ts ! i = t"
      "bytes \<le> bytes_for_size_type pf t" "\<forall>j < i. \<not> bytes \<le> bytes_for_size_type pf (ts ! j)" by blast
    show ?thesis
    proof (intro exI[of _ "Suc i"] conjI allI impI)
      fix j assume "j < Suc i"
      then show "\<not> bytes \<le> bytes_for_size_type pf ((a # ts) ! j)"
        using False i(4) by (cases j) auto
    qed (use i in auto)
  qed
qed

lemma find_fitting_loop_Inl:
  "find_fitting_loop pf bytes ts = Inl e \<longleftrightarrow>
     e = CannotFit bytes \<and> (\<forall>t \<in> set ts. \<not> bytes \<le> bytes_for_size_type pf t)"
  by (induction ts) auto

lemma MAX_in_enum_values: "MAX_PAGE_SIZE_TYPE pf \<in> set (enum_values pf)"
  by (cases pf) (simp_all add: MAX_PAGE_SIZE_TYPE_def NUM_PAGE_SIZE_TYPES_def enum_values_def)

lemma MAX_is_largest:
  "t \<in> set (enum_values pf) \<Longrightarrow> bytes_for_size_type pf t \<le> bytes_for_size_type pf (MAX_PAGE_SIZE_TYPE pf)"
proof -
  assume "t \<in> set (enum_values pf)"
  then obtain i where i: "i < length (enum_values pf)" "enum_values pf ! i = t"
    by (auto simp: in_set_conv_nth)
  let ?n = "length (enum_values pf) - 1"
  have n: "?n < length (enum_values pf)" by (cases pf) (simp_all add: enum_values_def)
  show ?thesis
  proof (cases "i = ?n")
    case True then show ?thesis using i by (simp add: MAX_PAGE_SIZE_TYPE_def NUM_PAGE_SIZE_TYPES_def)
  next
    case False
    with i have "i < ?n" by simp
    from sizes_strict_mono[OF this n] i show ?thesis
      by (simp add: MAX_PAGE_SIZE_TYPE_def NUM_PAGE_SIZE_TYPES_def)
  qed
qed

text \<open>
  Claim C7. For a byte count that does not exceed the size of the largest class,
  \<^verbatim>\<open>find_fitting_page_size_type\<close> returns a size class of the platform whose size
  \<^verbatim>\<open>OS_PAGE_SIZE << k\<close> (computed without overflow) is at least the byte count, and
  every class of the platform that is large enough has an index and a size that are
  no smaller. For a byte count above the size of the largest class it fails.
\<close>

theorem find_fitting_page_size_type_smallest:
  "(bytes \<le> bytes_for_size_type pf (MAX_PAGE_SIZE_TYPE pf) \<longrightarrow>
      (\<exists>t \<in> set (enum_values pf).
          find_fitting_page_size_type pf bytes = Inr t \<and>
          unat (bytes_for_size_type pf t) = unat (OS_PAGE_SIZE pf) * 2 ^ enum_integer pf t \<and>
          bytes \<le> bytes_for_size_type pf t \<and>
          (\<forall>u \<in> set (enum_values pf). bytes \<le> bytes_for_size_type pf u \<longrightarrow>
              enum_integer pf t \<le> enum_integer pf u \<and>
              bytes_for_size_type pf t \<le> bytes_for_size_type pf u))) \<and>
   (bytes_for_size_type pf (MAX_PAGE_SIZE_TYPE pf) < bytes \<longrightarrow>
      find_fitting_page_size_type pf bytes = Inl (CannotFit bytes))"
proof (intro conjI impI)
  assume fits: "bytes \<le> bytes_for_size_type pf (MAX_PAGE_SIZE_TYPE pf)"
  have "\<not> (\<exists>e. find_fitting_page_size_type pf bytes = Inl e)"
    using fits MAX_in_enum_values[of pf]
    by (auto simp: find_fitting_page_size_type_def find_fitting_loop_Inl)
  then obtain t where t: "find_fitting_page_size_type pf bytes = Inr t"
    by (cases "find_fitting_page_size_type pf bytes") auto
  from find_fitting_loop_Inr[OF t[unfolded find_fitting_page_size_type_def]]
  obtain i where i: "i < length (enum_values pf)" "enum_values pf ! i = t"
    "bytes \<le> bytes_for_size_type pf t"
    "\<forall>j < i. \<not> bytes \<le> bytes_for_size_type pf (enum_values pf ! j)" by blast
  have tin: "t \<in> set (enum_values pf)" using i by auto
  have least: "enum_integer pf t \<le> enum_integer pf u \<and>
        bytes_for_size_type pf t \<le> bytes_for_size_type pf u"
    if u: "u \<in> set (enum_values pf)" "bytes \<le> bytes_for_size_type pf u" for u
  proof -
    from u obtain k where k: "k < length (enum_values pf)" "enum_values pf ! k = u"
      by (auto simp: in_set_conv_nth)
    have "\<not> k < i" using i(4) k u(2) by auto
    then have ik: "i \<le> k" by simp
    have "bytes_for_size_type pf t \<le> bytes_for_size_type pf u"
    proof (cases "i = k")
      case True then show ?thesis using i k by simp
    next
      case False
      with ik have "i < k" by simp
      from sizes_strict_mono[OF this k(1)] i k show ?thesis by simp
    qed
    moreover have "enum_integer pf t = i" "enum_integer pf u = k"
      using enum_integer_nth i k by auto
    ultimately show ?thesis using ik by simp
  qed
  show "\<exists>t \<in> set (enum_values pf).
          find_fitting_page_size_type pf bytes = Inr t \<and>
          unat (bytes_for_size_type pf t) = unat (OS_PAGE_SIZE pf) * 2 ^ enum_integer pf t \<and>
          bytes \<le> bytes_for_size_type pf t \<and>
          (\<forall>u \<in> set (enum_values pf). bytes \<le> bytes_for_size_type pf u \<longrightarrow>
              enum_integer pf t \<le> enum_integer pf u \<and>
              bytes_for_size_type pf t \<le> bytes_for_size_type pf u)"
    using tin t i(3) least no_overflow[OF tin] by blast
next
  assume big: "bytes_for_size_type pf (MAX_PAGE_SIZE_TYPE pf) < bytes"
  have "\<forall>t \<in> set (enum_values pf). \<not> bytes \<le> bytes_for_size_type pf t"
    using MAX_is_largest[of _ pf] big by (meson leD order_trans)
  then show "find_fitting_page_size_type pf bytes = Inl (CannotFit bytes)"
    by (simp add: find_fitting_page_size_type_def find_fitting_loop_Inl)
qed

theorem find_fitting_page_size_type_smallest_witness:
  "(5000 :: 64 word) \<le> bytes_for_size_type Linux (MAX_PAGE_SIZE_TYPE Linux) \<and>
   find_fitting_page_size_type Linux 5000 = Inr KiB8 \<and>
   bytes_for_size_type Linux KiB8 = 8192 \<and>
   bytes_for_size_type Linux (MAX_PAGE_SIZE_TYPE Linux) < (2097153 :: 64 word) \<and>
   find_fitting_page_size_type Linux 2097153 = Inl (CannotFit 2097153) \<and>
   find_fitting_page_size_type Apple 5000 = Inr KiB16"
  using find_fitting_page_size_type_smallest[of 5000 Linux]
        find_fitting_page_size_type_smallest[of 2097153 Linux]
  by (simp add: find_fitting_page_size_type_def enum_values_def bytes_for_size_type_def
      enum_integer_def OS_PAGE_SIZE_def MAX_PAGE_SIZE_TYPE_def NUM_PAGE_SIZE_TYPES_def)


section \<open>Facts about buffer-managed pointers\<close>


lemma INVALID_PAGE_ID_eq:
  "INVALID_PAGE_ID pf = \<lparr>valid = False, size_type = 0, index = 0\<rparr>"
  by (cases pf) (simp_all add: INVALID_PAGE_ID_def PageID_ctor_def MIN_PAGE_SIZE_TYPE_def
      enum_integer_def enum_values_def)

text \<open>
  Claim C10. The constructor \<^verbatim>\<open>BufferManagedPtr(pointer ptr = 0)\<close> ignores its
  argument: for every raw pointer it builds the pair of \<^verbatim>\<open>INVALID_PAGE_ID\<close> and
  offset 0, and resolving the result gives the null raw pointer under every buffer
  manager.
\<close>

theorem from_pointer_is_null:
  "(from_pointer pf ptr :: 't BufferManagedPtr) = BufferManagedPtr (INVALID_PAGE_ID pf) 0 \<and>
   get_pointer pf bm (from_pointer pf ptr :: 't BufferManagedPtr) = 0 \<and>
   get pf bm (from_pointer pf ptr :: 't BufferManagedPtr) = 0"
  by (simp add: from_pointer_def get_pointer_def get_def)

text \<open>
  Claim C8. Equality, inequality, less-than and less-or-equal of two buffer-managed
  pointers (of the same or of different pointed-to types) are the comparisons of the
  raw addresses the two pointers resolve to. The pair of page id and offset is not
  compared: any two null pointers are equal whatever their offsets, and two non-null
  pointers on different pages are equal when page address plus offset agree.
\<close>

theorem comparison_uses_resolved_address:
  fixes p q :: "'t BufferManagedPtr" and r :: "'u BufferManagedPtr"
  shows
  "(operator_eq pf bm p q \<longleftrightarrow> get_pointer pf bm p = get_pointer pf bm q) \<and>
   (operator_eq_free pf bm p r \<longleftrightarrow> get_pointer pf bm p = get_pointer pf bm r) \<and>
   (operator_neq_free pf bm p r \<longleftrightarrow> get_pointer pf bm p \<noteq> get_pointer pf bm r) \<and>
   (operator_less pf bm p q \<longleftrightarrow> get_pointer pf bm p < get_pointer pf bm q) \<and>
   (operator_le_free pf bm p r \<longleftrightarrow> get_pointer pf bm p \<le> get_pointer pf bm r) \<and>
   (get_page_id p = INVALID_PAGE_ID pf \<and> get_page_id r = INVALID_PAGE_ID pf \<longrightarrow>
      operator_eq_free pf bm p r \<and> operator_le_free pf bm p r) \<and>
   (get_page_id p = INVALID_PAGE_ID pf \<and> get_page_id q = INVALID_PAGE_ID pf \<longrightarrow>
      operator_eq pf bm p q \<and> \<not> operator_less pf bm p q) \<and>
   (get_page_id p \<noteq> INVALID_PAGE_ID pf \<and> get_page_id r \<noteq> INVALID_PAGE_ID pf \<and>
    bm (get_page_id p) + get_offset p = bm (get_page_id r) + get_offset r \<longrightarrow>
      operator_eq_free pf bm p r)"
  by (simp add: operator_eq_def operator_eq_free_def operator_neq_free_def operator_less_def
      operator_le_free_def get_def get_pointer_def)

theorem comparison_uses_resolved_address_witness:
  "get_page_id (BufferManagedPtr (INVALID_PAGE_ID Linux) 0 :: nat BufferManagedPtr) = INVALID_PAGE_ID Linux \<and>
   get_page_id (BufferManagedPtr (INVALID_PAGE_ID Linux) 8 :: bool BufferManagedPtr) = INVALID_PAGE_ID Linux \<and>
   (BufferManagedPtr (INVALID_PAGE_ID Linux) 0 :: nat BufferManagedPtr) \<noteq> BufferManagedPtr (INVALID_PAGE_ID Linux) 8 \<and>
   operator_eq_free Linux two_pages (BufferManagedPtr (INVALID_PAGE_ID Linux) 0 :: nat BufferManagedPtr)
      (BufferManagedPtr (INVALID_PAGE_ID Linux) 8 :: bool BufferManagedPtr) \<and>
   operator_eq Linux two_pages (BufferManagedPtr (INVALID_PAGE_ID Linux) 0 :: nat BufferManagedPtr)
      (BufferManagedPtr (INVALID_PAGE_ID Linux) 8) \<and>
   PageID_ctor Linux KiB4 0 True \<noteq> INVALID_PAGE_ID Linux \<and>
   PageID_ctor Linux KiB4 1 True \<noteq> INVALID_PAGE_ID Linux \<and>
   two_pages (PageID_ctor Linux KiB4 0 True) + 4096 = two_pages (PageID_ctor Linux KiB4 1 True) + 0 \<and>
   operator_eq_free Linux two_pages
      (BufferManagedPtr (PageID_ctor Linux KiB4 0 True) 4096 :: nat BufferManagedPtr)
      (BufferManagedPtr (PageID_ctor Linux KiB4 1 True) 0 :: bool BufferManagedPtr)"
  using comparison_uses_resolved_address
          [of Linux two_pages "BufferManagedPtr (INVALID_PAGE_ID Linux) 0 :: nat BufferManagedPtr"
              "BufferManagedPtr (INVALID_PAGE_ID Linux) 8"
              "BufferManagedPtr (INVALID_PAGE_ID Linux) 8 :: bool BufferManagedPtr"]
        comparison_uses_resolved_address
          [of Linux two_pages "BufferManagedPtr (PageID_ctor Linux KiB4 0 True) 4096 :: nat BufferManagedPtr"
              "BufferManagedPtr (PageID_ctor Linux KiB4 0 True) 4096"
              "BufferManagedPtr (PageID_ctor Linux KiB4 1 True) 0 :: bool BufferManagedPtr"]
  by (simp add: INVALID_PAGE_ID_eq PageID_ctor_def two_pages_def get_pointer_def)

text \<open>
  Claim C1, evaluated on the code. The null pointer built by the default constructor
  resolves to the null raw pointer and \<^verbatim>\<open>operator!\<close> is true on it, yet
  \<^verbatim>\<open>operator bool\<close> is true on it as well; the pointer at offset 8 of a valid page
  resolves to a non-null address and \<^verbatim>\<open>operator!\<close> is false on it, yet
  \<^verbatim>\<open>operator bool\<close> is false on it too.
\<close>

theorem operator_bool_at_null_and_non_null:
  "get_pointer Linux two_pages (from_pointer Linux 0 :: nat BufferManagedPtr) = 0 \<and>
   operator_not Linux two_pages (from_pointer Linux 0 :: nat BufferManagedPtr) \<and>
   operator_bool Linux (from_pointer Linux 0 :: nat BufferManagedPtr) \<and>
   get_page_id (BufferManagedPtr (PageID_ctor Linux KiB4 0 True) 8 :: nat BufferManagedPtr) \<noteq> INVALID_PAGE_ID Linux \<and>
   get_pointer Linux two_pages (BufferManagedPtr (PageID_ctor Linux KiB4 0 True) 8 :: nat BufferManagedPtr) = 65544 \<and>
   \<not> operator_not Linux two_pages (BufferManagedPtr (PageID_ctor Linux KiB4 0 True) 8 :: nat BufferManagedPtr) \<and>
   \<not> operator_bool Linux (BufferManagedPtr (PageID_ctor Linux KiB4 0 True) 8 :: nat BufferManagedPtr)"
  by (simp add: INVALID_PAGE_ID_eq PageID_ctor_def two_pages_def from_pointer_def get_pointer_def
      get_def operator_not_def operator_bool_def)

text \<open>
  Claim C2, evaluated on the code. \<^verbatim>\<open>p += 1\<close> leaves the offset 0 of \<open>p\<close> at 0
  where \<^verbatim>\<open>p + 1\<close> has offset 1, and \<^verbatim>\<open>p -= 1\<close> leaves the offset 8 at 8 where
  \<^verbatim>\<open>p - 1\<close> has offset 7.
\<close>

theorem compound_assignment_keeps_offset:
  "get_offset (operator_plus_assign (BufferManagedPtr (PageID_ctor Linux KiB4 0 True) 0 :: nat BufferManagedPtr) 1) = 0 \<and>
   get_offset (operator_plus (BufferManagedPtr (PageID_ctor Linux KiB4 0 True) 0 :: nat BufferManagedPtr) 1) = 1 \<and>
   get_offset (operator_minus_assign (BufferManagedPtr (PageID_ctor Linux KiB4 0 True) 8 :: nat BufferManagedPtr) 1) = 8 \<and>
   get_offset (operator_minus (BufferManagedPtr (PageID_ctor Linux KiB4 0 True) 8 :: nat BufferManagedPtr) 1) = 7"
  by (simp add: operator_plus_assign_def operator_minus_assign_def operator_plus_def operator_minus_def)

lemma get_pointer_null_if_invalid:
  "get_page_id p = INVALID_PAGE_ID pf \<Longrightarrow> get_pointer pf bm p = 0"
  by (simp add: get_pointer_def)

lemma get_pointer_non_null_if_valid:
  assumes "get_page_id p \<noteq> INVALID_PAGE_ID pf"
    and "bm (get_page_id p) \<noteq> 0"
    and "unat (bm (get_page_id p)) + unat (get_offset p) < 2 ^ 64"
  shows "get_pointer pf bm p \<noteq> 0"
proof -
  have "unat (bm (get_page_id p) + get_offset p) = unat (bm (get_page_id p)) + unat (get_offset p)"
    using assms(3) by (simp add: unat_word_ariths)
  moreover have "unat (bm (get_page_id p)) \<noteq> 0" using assms(2) by (simp add: unat_eq_0)
  ultimately have "unat (get_pointer pf bm p) \<noteq> 0" using assms(1) by (simp add: get_pointer_def)
  then show ?thesis by auto
qed

lemma arithmetic_on_offset_only:
  "get_page_id (operator_plus p n) = get_page_id p \<and> get_offset (operator_plus p n) = get_offset p + n \<and>
   get_page_id (operator_minus p n) = get_page_id p \<and> get_offset (operator_minus p n) = get_offset p - n \<and>
   get_page_id (operator_pre_increment p) = get_page_id p \<and> get_offset (operator_pre_increment p) = get_offset p + 1 \<and>
   get_page_id (operator_pre_decrement p) = get_page_id p \<and> get_offset (operator_pre_decrement p) = get_offset p - 1"
  by (simp add: operator_plus_def operator_minus_def operator_pre_increment_def operator_pre_decrement_def)

section \<open>Task ordering\<close>


lemmas sched_defs = make_task_def set_as_predecessor_of_def schedule_def begin_execution_def
  finish_execution_def

lemma notify_length [simp]: "length (notify_successors bs ts) = length ts"
  by (induction bs arbitrary: ts) auto

lemma notify_fields:
  "c < length ts \<Longrightarrow>
     task_state (notify_successors bs ts ! c) = task_state (ts ! c) \<and>
     successors (notify_successors bs ts ! c) = successors (ts ! c) \<and>
     payload (notify_successors bs ts ! c) = payload (ts ! c) \<and>
     predecessor_count (notify_successors bs ts ! c) = predecessor_count (ts ! c) - count_list bs c"
proof (induction bs arbitrary: ts)
  case Nil then show ?case by simp
next
  case (Cons b bs)
  let ?ts = "ts[b := (ts ! b)\<lparr>predecessor_count := predecessor_count (ts ! b) - 1\<rparr>]"
  have "c < length ?ts" using Cons.prems by simp
  from Cons.IH[OF this] show ?case using Cons.prems
    by (cases "b = c") (auto simp: nth_list_update)
qed

lemma pending_weight: "pending ts b = sum_list (map (weight b) ts)"
  by (simp add: pending_def)

lemma weight_in_sum: "a < length ts \<Longrightarrow> weight b (ts ! a) \<le> sum_list (map (weight b) ts)"
proof -
  assume "a < length ts"
  then have "weight b (ts ! a) \<in> set (map (weight b) ts)" by simp
  then show ?thesis by (simp add: member_le_sum_list)
qed

lemma pending_append: "pending (ts @ [t]) b = pending ts b + weight b t"
  by (simp add: pending_weight)

lemma pending_update:
  "a < length ts \<Longrightarrow> pending (ts[a := t]) b + weight b (ts ! a) = pending ts b + weight b t"
proof -
  assume a: "a < length ts"
  have le: "weight b (ts ! a) \<le> sum_list (map (weight b) ts)"
    using a by (rule weight_in_sum)
  have "sum_list ((map (weight b) ts)[a := weight b t]) =
        sum_list (map (weight b) ts) + weight b t - map (weight b) ts ! a"
    using a by (simp add: sum_list_update)
  with a le show ?thesis by (simp add: pending_weight map_update)
qed

lemma pending_same_weight:
  "a < length ts \<Longrightarrow> weight b t = weight b (ts ! a) \<Longrightarrow> pending (ts[a := t]) b = pending ts b"
  using pending_update[of a ts t b] by simp

lemma pending_notify: "pending (notify_successors bs ts) b = pending ts b"
proof -
  have "map (weight b) (notify_successors bs ts) = map (weight b) ts"
    by (rule nth_equalityI) (simp_all add: weight_def notify_fields)
  then show ?thesis by (simp add: pending_weight)
qed

lemma weight_le_pending: "a < length ts \<Longrightarrow> weight b (ts ! a) \<le> pending ts b"
  unfolding pending_weight by (rule weight_in_sum)




lemma tasks_run_payload [simp]: "tasks (run_payload pl s) = tasks s"
  by (cases pl) auto

lemma pending_beyond:
  assumes "succ_bound ts" "length ts \<le> b"
  shows "pending ts b = 0"
proof -
  have "\<forall>x \<in> set ts. weight b x = 0"
  proof
    fix x assume "x \<in> set ts"
    then obtain a where a: "a < length ts" "ts ! a = x" by (auto simp: in_set_conv_nth)
    with assms(1) have "\<forall>c \<in> set (successors x). c < length ts" by (auto simp: succ_bound_def)
    with assms(2) have "b \<notin> set (successors x)" by auto
    then show "weight b x = 0" by (simp add: weight_def)
  qed
  then show ?thesis by (simp add: pending_def sum_list_eq_0_iff)
qed

lemma inv_make_task:
  assumes "task_inv ts"
  shows "task_inv (ts @ [\<lparr>task_state = CREATED, predecessor_count = 0, successors = [], payload = pl\<rparr>])"
    (is "task_inv (ts @ [?new])")
proof -
  from assms have sb: "succ_bound ts" and c: "counts ts" and o: "ordered ts"
    by (simp_all add: task_inv_def)
  have w: "weight b ?new = 0" for b by (simp add: weight_def)
  have "succ_bound (ts @ [?new])"
    using sb by (auto simp: succ_bound_def nth_append less_Suc_eq)
  moreover have "counts (ts @ [?new])"
    unfolding counts_def
  proof (intro allI impI)
    fix b assume "b < length (ts @ [?new])"
    then consider "b < length ts" | "b = length ts" by fastforce
    then show "predecessor_count ((ts @ [?new]) ! b) = pending (ts @ [?new]) b"
    proof cases
      case 1 with c show ?thesis by (simp add: counts_def nth_append pending_append w)
    next
      case 2 with pending_beyond[OF sb, of b] show ?thesis by (simp add: pending_append w)
    qed
  qed
  moreover have "ordered (ts @ [?new])"
    unfolding ordered_def
  proof (intro allI impI ballI)
    fix a b assume a: "a < length (ts @ [?new])" and b: "b \<in> set (successors ((ts @ [?new]) ! a))"
      and bg: "begun ((ts @ [?new]) ! b)"
    from a b have a': "a < length ts" by (cases "a = length ts") (auto simp: nth_append)
    with b have b': "b \<in> set (successors (ts ! a))" by (simp add: nth_append)
    with sb a' have "b < length ts" by (auto simp: succ_bound_def)
    with bg have "begun (ts ! b)" by (simp add: nth_append)
    with o a' b' have "task_state (ts ! a) = DONE" by (auto simp: ordered_def)
    with a' show "task_state ((ts @ [?new]) ! a) = DONE" by (simp add: nth_append)
  qed
  ultimately show ?thesis by (simp add: task_inv_def)
qed

text \<open>A step that changes one task's state between states that are not DONE.\<close>

lemma inv_state_change:
  assumes inv: "task_inv ts" and t: "t < length ts"
    and nd: "task_state (ts ! t) \<noteq> DONE" "st \<noteq> DONE"
    and ok: "st = RUNNING \<longrightarrow> predecessor_count (ts ! t) = 0"
  shows "task_inv (ts[t := (ts ! t)\<lparr>task_state := st\<rparr>])" (is "task_inv ?ts")
proof -
  from inv have sb: "succ_bound ts" and c: "counts ts" and o: "ordered ts"
    by (simp_all add: task_inv_def)
  have same: "successors (?ts ! a) = successors (ts ! a)"
    "predecessor_count (?ts ! a) = predecessor_count (ts ! a)" if "a < length ts" for a
    using that by (cases "a = t"; simp)+
  have w: "weight b ((ts ! t)\<lparr>task_state := st\<rparr>) = weight b (ts ! t)" for b
    using nd by (simp add: weight_def)
  have p: "pending ?ts b = pending ts b" for b
    using pending_same_weight[OF t w] .
  have "succ_bound ?ts" using sb by (simp add: succ_bound_def same)
  moreover have "counts ?ts" using c by (simp add: counts_def same p)
  moreover have "ordered ?ts"
    unfolding ordered_def
  proof (intro allI impI ballI)
    fix a b assume a: "a < length ?ts" and b: "b \<in> set (successors (?ts ! a))"
      and bg: "begun (?ts ! b)"
    from a have a': "a < length ts" by simp
    from b a' have b': "b \<in> set (successors (ts ! a))" by (simp add: same)
    with sb a' have bl: "b < length ts" by (auto simp: succ_bound_def)
    have "task_state (ts ! a) = DONE"
    proof (cases "b = t")
      case False
      with bg bl have "begun (ts ! b)" by (simp add: begun_def)
      with o a' b' show ?thesis by (auto simp: ordered_def)
    next
      case True
      show ?thesis
      proof (cases "begun (ts ! t)")
        case True with o a' b' \<open>b = t\<close> show ?thesis by (auto simp: ordered_def)
      next
        case False
        with bg True t nd have "st = RUNNING" by (auto simp: begun_def)
        with ok have "predecessor_count (ts ! t) = 0" by simp
        with c t have "pending ts t = 0" by (simp add: counts_def)
        moreover have "weight t (ts ! a) \<le> pending ts t" using a' by (rule weight_le_pending)
        ultimately have "weight t (ts ! a) = 0" by simp
        with b' True show ?thesis by (auto simp: weight_def count_list_0_iff split: if_splits)
      qed
    qed
    then show "task_state (?ts ! a) = DONE"
      using a' nd by (cases "a = t") (auto)
  qed
  ultimately show ?thesis by (simp add: task_inv_def)
qed




lemma inv_set_as_predecessor_of:
  assumes inv: "task_inv ts" and a: "a < length ts" and b: "b < length ts"
    and na: "\<not> begun (ts ! a)" and nb: "\<not> begun (ts ! b)"
  defines "ts1 \<equiv> ts[a := add_successor b (ts ! a)]"
  defines "ts2 \<equiv> ts1[b := increment_predecessors (ts1 ! b)]"
  shows "task_inv ts2"
proof -
  from inv have sb: "succ_bound ts" and c: "counts ts" and o: "ordered ts"
    by (simp_all add: task_inv_def)
  have len: "length ts1 = length ts" "length ts2 = length ts" by (simp_all add: ts1_def ts2_def)
  have st1: "task_state (ts1 ! x) = task_state (ts ! x)" if "x < length ts" for x
    using that by (cases "x = a") (simp_all add: ts1_def add_successor_def)
  have st2: "task_state (ts2 ! x) = task_state (ts ! x)" if "x < length ts" for x
    using that st1[OF that] len
    by (cases "x = b") (simp_all add: ts2_def increment_predecessors_def)
  have su1: "successors (ts1 ! x) = successors (ts ! x) @ (if x = a then [b] else [])"
    if "x < length ts" for x
    using that by (cases "x = a") (simp_all add: ts1_def add_successor_def)
  have su2: "successors (ts2 ! x) = successors (ts ! x) @ (if x = a then [b] else [])"
    if "x < length ts" for x
    using that su1[OF that] len
    by (cases "x = b") (simp_all add: ts2_def increment_predecessors_def)
  have pc1: "predecessor_count (ts1 ! x) = predecessor_count (ts ! x)" if "x < length ts" for x
    using that by (cases "x = a") (simp_all add: ts1_def add_successor_def)
  have pc2: "predecessor_count (ts2 ! x) = predecessor_count (ts ! x) + (if x = b then 1 else 0)"
    if "x < length ts" for x
    using that pc1[OF that] len
    by (cases "x = b") (simp_all add: ts2_def increment_predecessors_def)
  have nda: "task_state (ts ! a) \<noteq> DONE" using na by (simp add: begun_def)
  have w1: "weight x (add_successor b (ts ! a)) = weight x (ts ! a) + (if x = b then 1 else 0)" for x
    using nda by (simp add: weight_def add_successor_def)
  have p1: "pending ts1 x = pending ts x + (if x = b then 1 else 0)" for x
    using pending_update[OF a, of "add_successor b (ts ! a)" x] w1[of x]
    by (simp add: ts1_def)
  have w2: "weight x (increment_predecessors (ts1 ! b)) = weight x (ts1 ! b)" for x
    by (simp add: weight_def increment_predecessors_def)
  have p2: "pending ts2 x = pending ts1 x" for x
    unfolding ts2_def using pending_same_weight[of b ts1, OF _ w2] b len by simp
  have "succ_bound ts2"
    using sb b by (auto simp: succ_bound_def len su2 split: if_splits)
  moreover have "counts ts2"
    using c by (simp add: counts_def len pc2 p2 p1)
  moreover have "ordered ts2"
    unfolding ordered_def
  proof (intro allI impI ballI)
    fix x y assume x: "x < length ts2" and y: "y \<in> set (successors (ts2 ! x))"
      and bg: "begun (ts2 ! y)"
    from x have x': "x < length ts" by (simp add: len)
    from y x' have y': "y \<in> set (successors (ts ! x)) \<or> (x = a \<and> y = b)"
      by (auto simp: su2 split: if_splits)
    have yl: "y < length ts" using y' sb x' b by (auto simp: succ_bound_def)
    from bg yl have bg': "begun (ts ! y)" by (simp add: begun_def st2)
    with nb y' have "y \<in> set (successors (ts ! x))" by auto
    with o x' bg' have "task_state (ts ! x) = DONE" by (auto simp: ordered_def)
    then show "task_state (ts2 ! x) = DONE" using x' by (simp add: st2)
  qed
  ultimately show ?thesis by (simp add: task_inv_def)
qed

lemma inv_finish:
  assumes inv: "task_inv ts" and t: "t < length ts" and r: "task_state (ts ! t) = RUNNING"
  defines "ts1 \<equiv> ts[t := (ts ! t)\<lparr>task_state := DONE\<rparr>]"
  defines "ts2 \<equiv> notify_successors (successors (ts ! t)) ts1"
  shows "task_inv ts2"
proof -
  from inv have sb: "succ_bound ts" and c: "counts ts" and o: "ordered ts"
    by (simp_all add: task_inv_def)
  have len: "length ts1 = length ts" "length ts2 = length ts" by (simp_all add: ts1_def ts2_def)
  have f2: "task_state (ts2 ! x) = task_state (ts1 ! x)" "successors (ts2 ! x) = successors (ts1 ! x)"
    "predecessor_count (ts2 ! x) = predecessor_count (ts1 ! x) - count_list (successors (ts ! t)) x"
    if "x < length ts" for x
    using notify_fields[of x ts1 "successors (ts ! t)"] that len by (simp_all add: ts2_def)
  have st1: "task_state (ts1 ! x) = (if x = t then DONE else task_state (ts ! x))"
    and su1: "successors (ts1 ! x) = successors (ts ! x)"
    and pc1: "predecessor_count (ts1 ! x) = predecessor_count (ts ! x)" if "x < length ts" for x
    using that by (cases "x = t"; simp add: ts1_def)+
  have w: "weight x (ts ! t) = count_list (successors (ts ! t)) x"
    "weight x ((ts ! t)\<lparr>task_state := DONE\<rparr>) = 0" for x
    using r by (simp_all add: weight_def)
  have p1: "pending ts1 x + count_list (successors (ts ! t)) x = pending ts x" for x
    using pending_update[OF t, of "(ts ! t)\<lparr>task_state := DONE\<rparr>" x] w[of x]
    by (simp add: ts1_def)
  have p2: "pending ts2 x = pending ts1 x" for x
    by (simp add: ts2_def pending_notify)
  have "succ_bound ts2"
    using sb by (simp add: succ_bound_def len f2 su1)
  moreover have "counts ts2"
    unfolding counts_def
  proof (intro allI impI)
    fix x assume "x < length ts2"
    then have x: "x < length ts" by (simp add: len)
    with c have "predecessor_count (ts ! x) = pending ts x" by (simp add: counts_def)
    with p1[of x] show "predecessor_count (ts2 ! x) = pending ts2 x"
      using x by (simp add: f2 pc1 p2)
  qed
  moreover have "ordered ts2"
    unfolding ordered_def
  proof (intro allI impI ballI)
    fix x y assume x: "x < length ts2" and y: "y \<in> set (successors (ts2 ! x))"
      and bg: "begun (ts2 ! y)"
    from x have x': "x < length ts" by (simp add: len)
    from y x' have y': "y \<in> set (successors (ts ! x))" by (simp add: f2 su1)
    have yl: "y < length ts" using y' sb x' by (auto simp: succ_bound_def)
    from bg yl r have "begun (ts ! y)" by (auto simp: begun_def f2 st1 split: if_splits)
    with o x' y' have "task_state (ts ! x) = DONE" by (auto simp: ordered_def)
    then show "task_state (ts2 ! x) = DONE" using x' by (simp add: f2 st1)
  qed
  ultimately show ?thesis by (simp add: task_inv_def)
qed

lemma step_task_inv:
  assumes "task_inv (tasks s)" "sched_step a s = Some s'"
  shows "task_inv (tasks s')"
proof (cases a)
  case (MakeTask pl)
  with assms(2) have "tasks s' = tasks s @
      [\<lparr>task_state = CREATED, predecessor_count = 0, successors = [], payload = pl\<rparr>]"
    by (auto simp: make_task_def)
  with inv_make_task[OF assms(1)] show ?thesis by simp
next
  case (SetAsPredecessorOf x y)
  with assms(2) inv_set_as_predecessor_of[OF assms(1), of x y] show ?thesis
    by (auto simp: set_as_predecessor_of_def Let_def split: if_splits)
next
  case (Schedule t)
  with assms(2) inv_state_change[OF assms(1), of t SCHEDULED] assms(1) show ?thesis
    by (auto simp: schedule_def split: if_splits)
next
  case (Begin t)
  with assms(2) inv_state_change[OF assms(1), of t RUNNING] show ?thesis
    by (auto simp: begin_execution_def is_ready_def split: if_splits)
next
  case (Finish t)
  with assms(2) inv_finish[OF assms(1), of t] show ?thesis
    by (auto simp: finish_execution_def Let_def split: if_splits)
qed

lemma run_task_inv:
  "task_inv (tasks s) \<Longrightarrow> sched_run as s = Some s' \<Longrightarrow> task_inv (tasks s')"
proof (induction as arbitrary: s)
  case Nil then show ?case by simp
next
  case (Cons a as)
  then obtain s1 where s1: "sched_step a s = Some s1" "sched_run as s1 = Some s'"
    by (auto split: option.splits)
  from Cons.IH[OF step_task_inv[OF Cons.prems(1) s1(1)] s1(2)] show ?case .
qed

lemma reachable_task_inv:
  assumes "sched_run as initial_scheduler = Some s"
  shows "task_inv (tasks s)"
proof -
  have "task_inv (tasks initial_scheduler)"
    by (simp add: initial_scheduler_def task_inv_def succ_bound_def counts_def ordered_def)
  from run_task_inv[OF this assms] show ?thesis .
qed




lemma ordered_trancl:
  assumes inv: "task_inv (tasks s)" and ab: "(a, b) \<in> (edges s)\<^sup>+"
  shows "begun (tasks s ! b) \<longrightarrow> task_state (tasks s ! a) = DONE"
  using ab
proof (induction rule: trancl_induct)
  case (base y)
  then show ?case using inv by (auto simp: edges_def task_inv_def ordered_def)
next
  case (step y z)
  show ?case
  proof
    assume "begun (tasks s ! z)"
    with step.hyps(2) inv have "task_state (tasks s ! y) = DONE"
      by (auto simp: edges_def task_inv_def ordered_def)
    then have "begun (tasks s ! y)" by (simp add: begun_def)
    with step.IH show "task_state (tasks s ! a) = DONE" by simp
  qed
qed

lemma edges_begin:
  "begin_execution b s = Some s' \<Longrightarrow> edges s' = edges s"
  by (auto simp: begin_execution_def edges_def nth_list_update split: if_splits)

lemma begin_after_predecessors:
  assumes inv: "task_inv (tasks s)" and ab: "(a, b) \<in> (edges s)\<^sup>+"
    and bg: "begin_execution b s = Some s'"
  shows "task_state (tasks s ! a) = DONE"
proof -
  have "sched_step (Begin b) s = Some s'" using bg by simp
  from step_task_inv[OF inv this] have inv': "task_inv (tasks s')" .
  from bg have b: "b < length (tasks s)" "task_state (tasks s ! b) = SCHEDULED"
    and s': "tasks s' = (tasks s)[b := (tasks s ! b)\<lparr>task_state := RUNNING\<rparr>]"
    by (auto simp: begin_execution_def is_ready_def split: if_splits)
  from ab have ab': "(a, b) \<in> (edges s')\<^sup>+" by (simp add: edges_begin[OF bg])
  have "begun (tasks s' ! b)" using b s' by (simp add: begun_def)
  with ordered_trancl[OF inv' ab'] have d: "task_state (tasks s' ! a) = DONE" by simp
  have "a < length (tasks s)" using ab by (induction rule: trancl_induct) (auto simp: edges_def)
  with d s' b show ?thesis by (cases "a = b") auto
qed




lemma linear_chain_eq:
  "linear_chain =
     \<lparr>tasks =
        [\<lparr>task_state = CREATED, predecessor_count = 0, successors = [1], payload = CompareExchange 0 1\<rparr>,
         \<lparr>task_state = CREATED, predecessor_count = 1, successors = [2], payload = CompareExchange 1 2\<rparr>,
         \<lparr>task_state = CREATED, predecessor_count = 1, successors = [], payload = CompareExchange 2 3\<rparr>],
      counter = 0, failed_assertions = 0\<rparr>"
  by (simp add: linear_chain_def stress_linear_dependencies_build_def initial_scheduler_def
      make_task_def set_as_predecessor_of_def begun_def add_successor_def increment_predecessors_def)

lemma linear_chain_run:
  "sched_run stress_linear_dependencies_build initial_scheduler = Some linear_chain"
  unfolding linear_chain_eq
  by (simp add: stress_linear_dependencies_build_def initial_scheduler_def
      make_task_def set_as_predecessor_of_def begun_def add_successor_def increment_predecessors_def)

lemma chain_inv_linear_chain: "chain_inv linear_chain"
  unfolding chain_inv_def linear_chain_eq chain_task_def
  by (intro exI[of _ CREATED]) simp


lemma chain_inv_schedule:
  assumes "chain_inv s" "schedule t s = Some s'"
  shows "chain_inv s'"
proof -
  from assms(1) obtain s0 s1 s2 where
    ts: "tasks s =
        [chain_task s0 0 [1] (CompareExchange 0 1),
         chain_task s1 (if s0 = DONE then 0 else 1) [2] (CompareExchange 1 2),
         chain_task s2 (if s1 = DONE then 0 else 1) [] (CompareExchange 2 3)]"
    and o: "s1 = RUNNING \<or> s1 = DONE \<longrightarrow> s0 = DONE" "s2 = RUNNING \<or> s2 = DONE \<longrightarrow> s1 = DONE"
    and c: "counter s = (if s2 = DONE then 3 else if s1 = DONE then 2 else if s0 = DONE then 1 else 0)"
    and f: "failed_assertions s = 0"
    unfolding chain_inv_def by blast
  from assms(2) have t: "t = 0 \<or> t = 1 \<or> t = 2"
    by (auto simp: schedule_def ts split: if_splits)
  show ?thesis
  proof (cases "task_state (tasks s ! t) = CREATED")
    case False
    with assms show ?thesis by (auto simp: schedule_def split: if_splits)
  next
    case True
    with assms(2) have s': "s' = s\<lparr>tasks := (tasks s)[t := (tasks s ! t)\<lparr>task_state := SCHEDULED\<rparr>]\<rparr>"
      by (auto simp: schedule_def split: if_splits)
    from t show ?thesis
    proof (elim disjE)
      assume "t = 0"
      with True ts have "s0 = CREATED" by (simp add: chain_task_def)
      with \<open>t = 0\<close> o c f show ?thesis
        unfolding chain_inv_def s'
        by (intro exI[of _ SCHEDULED] exI[of _ s1] exI[of _ s2]) (auto simp: ts chain_task_def)
    next
      assume "t = 1"
      with True ts have "s1 = CREATED" by (simp add: chain_task_def)
      with \<open>t = 1\<close> o c f show ?thesis
        unfolding chain_inv_def s'
        by (intro exI[of _ s0] exI[of _ SCHEDULED] exI[of _ s2]) (auto simp: ts chain_task_def)
    next
      assume "t = 2"
      with True ts have "s2 = CREATED" by (simp add: chain_task_def)
      with \<open>t = 2\<close> o c f show ?thesis
        unfolding chain_inv_def s'
        by (intro exI[of _ s0] exI[of _ s1] exI[of _ SCHEDULED]) (auto simp: ts chain_task_def)
    qed
  qed
qed


lemma chain_inv_begin:
  assumes "chain_inv s" "begin_execution t s = Some s'"
  shows "chain_inv s'"
proof -
  from assms(1) obtain s0 s1 s2 where
    ts: "tasks s =
        [chain_task s0 0 [1] (CompareExchange 0 1),
         chain_task s1 (if s0 = DONE then 0 else 1) [2] (CompareExchange 1 2),
         chain_task s2 (if s1 = DONE then 0 else 1) [] (CompareExchange 2 3)]"
    and o: "s1 = RUNNING \<or> s1 = DONE \<longrightarrow> s0 = DONE" "s2 = RUNNING \<or> s2 = DONE \<longrightarrow> s1 = DONE"
    and c: "counter s = (if s2 = DONE then 3 else if s1 = DONE then 2 else if s0 = DONE then 1 else 0)"
    and f: "failed_assertions s = 0"
    unfolding chain_inv_def by blast
  from assms(2) have t: "t = 0 \<or> t = 1 \<or> t = 2"
    and rd: "is_ready (tasks s ! t)"
    and s': "s' = s\<lparr>tasks := (tasks s)[t := (tasks s ! t)\<lparr>task_state := RUNNING\<rparr>]\<rparr>"
    by (auto simp: begin_execution_def ts split: if_splits)
  from t show ?thesis
  proof (elim disjE)
    assume "t = 0"
    with rd ts have "s0 = SCHEDULED" by (simp add: chain_task_def is_ready_def)
    with \<open>t = 0\<close> o c f show ?thesis
      unfolding chain_inv_def s'
      by (intro exI[of _ RUNNING] exI[of _ s1] exI[of _ s2]) (auto simp: ts chain_task_def)
  next
    assume "t = 1"
    with rd ts have "s1 = SCHEDULED \<and> s0 = DONE"
      by (simp add: chain_task_def is_ready_def split: if_splits)
    with \<open>t = 1\<close> o c f show ?thesis
      unfolding chain_inv_def s'
      by (intro exI[of _ s0] exI[of _ RUNNING] exI[of _ s2]) (auto simp: ts chain_task_def)
  next
    assume "t = 2"
    with rd ts have "s2 = SCHEDULED \<and> s1 = DONE"
      by (simp add: chain_task_def is_ready_def split: if_splits)
    with \<open>t = 2\<close> o c f show ?thesis
      unfolding chain_inv_def s'
      by (intro exI[of _ s0] exI[of _ s1] exI[of _ RUNNING]) (auto simp: ts chain_task_def)
  qed
qed

lemma chain_inv_finish:
  assumes "chain_inv s" "finish_execution t s = Some s'"
  shows "chain_inv s'"
proof -
  from assms(1) obtain s0 s1 s2 where
    ts: "tasks s =
        [chain_task s0 0 [1] (CompareExchange 0 1),
         chain_task s1 (if s0 = DONE then 0 else 1) [2] (CompareExchange 1 2),
         chain_task s2 (if s1 = DONE then 0 else 1) [] (CompareExchange 2 3)]"
    and o: "s1 = RUNNING \<or> s1 = DONE \<longrightarrow> s0 = DONE" "s2 = RUNNING \<or> s2 = DONE \<longrightarrow> s1 = DONE"
    and c: "counter s = (if s2 = DONE then 3 else if s1 = DONE then 2 else if s0 = DONE then 1 else 0)"
    and f: "failed_assertions s = 0"
    unfolding chain_inv_def by blast
  from assms(2) have t: "t = 0 \<or> t = 1 \<or> t = 2"
    and rn: "task_state (tasks s ! t) = RUNNING"
    by (auto simp: finish_execution_def ts split: if_splits)
  from t show ?thesis
  proof (elim disjE)
    assume t0: "t = 0"
    with rn ts have "s0 = RUNNING" by (simp add: chain_task_def)
    with o have st: "s0 = RUNNING" "s1 \<noteq> RUNNING" "s1 \<noteq> DONE" "s2 \<noteq> RUNNING" "s2 \<noteq> DONE" by auto
    with c have c0: "counter s = 0" by simp
    from assms(2) t0 st c0 f show ?thesis
      unfolding chain_inv_def
      by (intro exI[of _ DONE] exI[of _ s1] exI[of _ s2])
         (auto simp: finish_execution_def ts chain_task_def split: if_splits)
  next
    assume t1: "t = 1"
    with rn ts have "s1 = RUNNING" by (simp add: chain_task_def)
    with o have st: "s0 = DONE" "s1 = RUNNING" "s2 \<noteq> RUNNING" "s2 \<noteq> DONE" by auto
    with c have c0: "counter s = 1" by simp
    from assms(2) t1 st c0 f show ?thesis
      unfolding chain_inv_def
      by (intro exI[of _ s0] exI[of _ DONE] exI[of _ s2])
         (auto simp: finish_execution_def ts chain_task_def split: if_splits)
  next
    assume t2: "t = 2"
    with rn ts have "s2 = RUNNING" by (simp add: chain_task_def)
    with o have st: "s0 = DONE" "s1 = DONE" "s2 = RUNNING" by auto
    with c have c0: "counter s = 2" by simp
    from assms(2) t2 st c0 f show ?thesis
      unfolding chain_inv_def
      by (intro exI[of _ s0] exI[of _ s1] exI[of _ DONE])
         (auto simp: finish_execution_def ts chain_task_def split: if_splits)
  qed
qed

lemma chain_inv_run:
  assumes "chain_inv s" "sched_run steps s = Some s'"
    and "filter (\<lambda>x. \<not> is_worker_step x) steps = main" "set main \<subseteq> Schedule ` UNIV"
  shows "chain_inv s'"
  using assms
proof (induction steps arbitrary: s main)
  case Nil then show ?case by simp
next
  case (Cons x steps)
  from Cons.prems(2) obtain s1 where s1: "sched_step x s = Some s1" "sched_run steps s1 = Some s'"
    by (auto split: option.splits)
  have "chain_inv s1"
  proof (cases x)
    case (MakeTask pl)
    with Cons.prems(3,4) show ?thesis by (auto simp: is_worker_step_def)
  next
    case (SetAsPredecessorOf a b)
    with Cons.prems(3,4) show ?thesis by (auto simp: is_worker_step_def)
  next
    case (Schedule t)
    with s1(1) Cons.prems(1) show ?thesis by (auto intro: chain_inv_schedule)
  next
    case (Begin t)
    with s1(1) Cons.prems(1) show ?thesis by (auto intro: chain_inv_begin)
  next
    case (Finish t)
    with s1(1) Cons.prems(1) show ?thesis by (auto intro: chain_inv_finish)
  qed
  moreover have "set (filter (\<lambda>x. \<not> is_worker_step x) steps) \<subseteq> Schedule ` UNIV"
    using Cons.prems(3,4) by (auto split: if_splits)
  ultimately show ?case using Cons.IH[OF _ s1(2) refl] by blast
qed

lemma chain_inv_all_done:
  assumes "chain_inv s" "\<forall>t \<in> set (tasks s). task_state t = DONE"
  shows "counter s = 3 \<and> failed_assertions s = 0"
  using assms unfolding chain_inv_def by (auto simp: chain_task_def)




lemmas eval_defs = sched_defs is_ready_def begun_def add_successor_def increment_predecessors_def
  initial_scheduler_def stress_linear_dependencies_build_def stress_linear_dependencies_schedule_def
  immediate_order_def is_worker_step_def

lemma immediate_run: "sched_run immediate_order linear_chain = Some chain_done"
  by (simp add: linear_chain_eq chain_done_def eval_defs)

lemma immediate_filter:
  "filter (\<lambda>x. \<not> is_worker_step x) immediate_order = stress_linear_dependencies_schedule"
  by (simp add: eval_defs)

lemma before_last_run:
  "sched_run (stress_linear_dependencies_build @
      [Schedule 2, Schedule 0, Begin 0, Finish 0, Schedule 1, Begin 1, Finish 1]) initial_scheduler =
   Some chain_before_last"
  by (simp add: chain_before_last_def eval_defs)

lemma chain_edges: "(0, 2) \<in> (edges chain_before_last)\<^sup>+"
proof -
  have "(0, 1) \<in> edges chain_before_last" "(1, 2) \<in> edges chain_before_last"
    by (simp_all add: edges_def chain_before_last_def)
  then show ?thesis by (meson trancl.r_into_trancl trancl_trans)
qed

text \<open>
  Claim C3. In every state reached by a legal run, if task \<open>a\<close> is a transitive
  predecessor of task \<open>b\<close>, then \<open>b\<close> has begun only if \<open>a\<close> is DONE, and a step that
  begins \<open>b\<close> is taken only when \<open>a\<close> is DONE already. For the linear chain of
  \<^verbatim>\<open>stress_linear_dependencies\<close>: every run that interleaves the calls
  \<^verbatim>\<open>task3->schedule(); task1->schedule(); task2->schedule()\<close> with workers' steps and
  ends with all three tasks DONE leaves the counter at 3 with no failed
  compare-and-swap, and there is such a run.
\<close>

theorem predecessors_done_before_successor_begins:
  "(sched_run steps initial_scheduler = Some s \<and> (a, b) \<in> (edges s)\<^sup>+ \<longrightarrow>
      (begun (tasks s ! b) \<longrightarrow> task_state (tasks s ! a) = DONE) \<and>
      (\<forall>s'. begin_execution b s = Some s' \<longrightarrow> task_state (tasks s ! a) = DONE)) \<and>
   sched_run stress_linear_dependencies_build initial_scheduler = Some linear_chain \<and>
   (filter (\<lambda>x. \<not> is_worker_step x) order = stress_linear_dependencies_schedule \<and>
    sched_run order linear_chain = Some final \<and>
    (\<forall>t \<in> set (tasks final). task_state t = DONE) \<longrightarrow>
      counter final = 3 \<and> failed_assertions final = 0) \<and>
   (\<exists>order final.
      filter (\<lambda>x. \<not> is_worker_step x) order = stress_linear_dependencies_schedule \<and>
      sched_run order linear_chain = Some final \<and>
      (\<forall>t \<in> set (tasks final). task_state t = DONE))"
proof (intro conjI impI allI)
  assume h: "sched_run steps initial_scheduler = Some s \<and> (a, b) \<in> (edges s)\<^sup>+"
  then have inv: "task_inv (tasks s)" using reachable_task_inv by blast
  { assume "begun (tasks s ! b)"
    with ordered_trancl[OF inv] h show "task_state (tasks s ! a) = DONE" by blast }
  { fix s' assume "begin_execution b s = Some s'"
    with begin_after_predecessors[OF inv] h show "task_state (tasks s ! a) = DONE" by blast }
next
  show "sched_run stress_linear_dependencies_build initial_scheduler = Some linear_chain"
    by (rule linear_chain_run)
next
  assume h: "filter (\<lambda>x. \<not> is_worker_step x) order = stress_linear_dependencies_schedule \<and>
    sched_run order linear_chain = Some final \<and>
    (\<forall>t \<in> set (tasks final). task_state t = DONE)"
  have "set stress_linear_dependencies_schedule \<subseteq> Schedule ` UNIV"
    by (simp add: stress_linear_dependencies_schedule_def)
  with chain_inv_run[OF chain_inv_linear_chain, of order final stress_linear_dependencies_schedule] h
  have "chain_inv final" by blast
  with chain_inv_all_done h show "counter final = 3" "failed_assertions final = 0" by blast+
next
  have "\<forall>t \<in> set (tasks chain_done). task_state t = DONE" by (simp add: chain_done_def)
  with immediate_run immediate_filter
  show "\<exists>order final.
      filter (\<lambda>x. \<not> is_worker_step x) order = stress_linear_dependencies_schedule \<and>
      sched_run order linear_chain = Some final \<and>
      (\<forall>t \<in> set (tasks final). task_state t = DONE)" by blast
qed

lemma done_run:
  "sched_run (stress_linear_dependencies_build @ immediate_order) initial_scheduler = Some chain_done"
  by (simp add: chain_done_def eval_defs)

lemma chain_done_edges: "(0, 2) \<in> (edges chain_done)\<^sup>+"
proof -
  have "(0, 1) \<in> edges chain_done" "(1, 2) \<in> edges chain_done"
    by (simp_all add: edges_def chain_done_def)
  then show ?thesis by (meson trancl.r_into_trancl trancl_trans)
qed

theorem predecessors_done_before_successor_begins_witness:
  "sched_run (stress_linear_dependencies_build @
      [Schedule 2, Schedule 0, Begin 0, Finish 0, Schedule 1, Begin 1, Finish 1]) initial_scheduler =
      Some chain_before_last \<and>
   (0, 2) \<in> (edges chain_before_last)\<^sup>+ \<and>
   begin_execution 2 chain_before_last \<noteq> None \<and>
   task_state (tasks chain_before_last ! 0) = DONE \<and>
   sched_run (stress_linear_dependencies_build @ immediate_order) initial_scheduler = Some chain_done \<and>
   (0, 2) \<in> (edges chain_done)\<^sup>+ \<and>
   begun (tasks chain_done ! 2) \<and>
   task_state (tasks chain_done ! 0) = DONE \<and>
   filter (\<lambda>x. \<not> is_worker_step x) immediate_order = stress_linear_dependencies_schedule \<and>
   sched_run immediate_order linear_chain = Some chain_done \<and>
   list_all (\<lambda>t. task_state t = DONE) (tasks chain_done) \<and>
   counter chain_done = 3 \<and> failed_assertions chain_done = 0"
proof -
  have b: "begin_execution 2 chain_before_last \<noteq> None"
    by (simp add: chain_before_last_def eval_defs)
  have d: "task_state (tasks chain_before_last ! 0) = DONE"
    "begun (tasks chain_done ! 2)" "task_state (tasks chain_done ! 0) = DONE"
    "list_all (\<lambda>t. task_state t = DONE) (tasks chain_done)"
    "counter chain_done = 3" "failed_assertions chain_done = 0"
    by (simp_all add: chain_before_last_def chain_done_def begun_def)
  show ?thesis
    using predecessors_done_before_successor_begins
            [of "stress_linear_dependencies_build @
                  [Schedule 2, Schedule 0, Begin 0, Finish 0, Schedule 1, Begin 1, Finish 1]"
                chain_before_last 0 2 immediate_order chain_done]
          predecessors_done_before_successor_begins
            [of "stress_linear_dependencies_build @ immediate_order"
                chain_done 0 2 immediate_order chain_done]
    apply -
    apply (intro conjI)
    apply (rule before_last_run chain_edges b d done_run chain_done_edges immediate_filter immediate_run)+
    done
qed

section \<open>Progress of a single worker\<close>


lemma stack_ok_mono:
  "stack_ok A H st \<Longrightarrow> A \<union> H \<subseteq> A' \<union> H' \<Longrightarrow> stack_ok A' H' st"
proof (induction st arbitrary: H H')
  case Nil then show ?case by simp
next
  case (Cons f st)
  obtain tid waited where f: "f = (tid, waited)" by (cases f)
  from Cons.prems have w: "set waited \<subseteq> A \<union> H" and r: "stack_ok A (insert tid H) st"
    by (simp_all add: f)
  have "A \<union> insert tid H \<subseteq> A' \<union> insert tid H'" using Cons.prems(2) by auto
  from Cons.IH[OF r this] w Cons.prems(2) show ?case by (auto simp: f)
qed

lemma zip_ids:
  "fst ` set (zip [n ..< n + length jobs] jobs) = {n ..< n + length jobs}"
proof -
  have "map fst (zip [n ..< n + length jobs] jobs) = [n ..< n + length jobs]"
    by (simp add: map_fst_zip)
  then have "set (map fst (zip [n ..< n + length jobs] jobs)) = set [n ..< n + length jobs]"
    by simp
  then show ?thesis by (simp only: set_map set_upt)
qed

lemma queued_size_zip:
  "length ids = length jobs \<Longrightarrow> queued_size (zip ids jobs) = sum_list (map job_size jobs)"
proof -
  assume "length ids = length jobs"
  then have "map snd (zip ids jobs) = jobs" by (simp add: map_snd_zip)
  then have "map job_size (map snd (zip ids jobs)) = map job_size jobs" by simp
  then show ?thesis by (simp add: queued_size_def)
qed

lemma queued_size_append [simp]: "queued_size (q @ r) = queued_size q + queued_size r"
  by (simp add: queued_size_def)

lemma queued_size_Cons [simp]: "queued_size ((tid, job) # q) = job_size job + queued_size q"
  by (simp add: queued_size_def)

lemma execute_measure:
  "Suc (remaining_steps (execute tid job (w\<lparr>queue := rest\<rparr>))) =
     2 * job_size job + 2 * queued_size rest + length (call_stack w)"
  by (cases job) (simp_all add: remaining_steps_def schedule_jobs_def Let_def queued_size_zip)

lemma pop_measure:
  "pop_and_execute w = Some w' \<Longrightarrow> Suc (remaining_steps w') = remaining_steps w"
  unfolding pop_and_execute_def
  by (auto split: list.splits simp: execute_measure) (simp add: remaining_steps_def)

lemma step_measure:
  "worker_step w = Some w' \<Longrightarrow> Suc (remaining_steps w') = remaining_steps w"
  unfolding worker_step_def
  by (auto split: list.splits if_splits simp: pop_measure) (simp add: remaining_steps_def)




lemma execute_fields:
  "queue (execute tid job w) =
     queue w @ zip [next_id w ..< next_id w + length (spawned job)] (spawned job) \<and>
   call_stack (execute tid job w) =
     (tid, [next_id w ..< next_id w + length (spawned job)]) # call_stack w \<and>
   finished (execute tid job w) = finished w \<and>
   next_id (execute tid job w) = next_id w + length (spawned job)"
  by (cases job) (simp_all add: schedule_jobs_def Let_def)

lemma pop_inv:
  assumes inv: "worker_inv w" and p: "pop_and_execute w = Some w'"
  shows "worker_inv w'"
proof -
  from p obtain tid job rest where q: "queue w = (tid, job) # rest"
    and w': "w' = execute tid job (w\<lparr>queue := rest\<rparr>)"
    by (auto simp: pop_and_execute_def split: list.splits)
  let ?n = "next_id w" and ?k = "length (spawned job)"
  let ?ids = "[?n ..< ?n + ?k]"
  let ?A = "set (finished w) \<union> fst ` set (queue w)"
  let ?A' = "set (finished w') \<union> fst ` set (queue w')"
  have fw: "queue w' = rest @ zip ?ids (spawned job)"
    "call_stack w' = (tid, ?ids) # call_stack w"
    "finished w' = finished w" "next_id w' = ?n + ?k"
    using execute_fields[of tid job "w\<lparr>queue := rest\<rparr>"] by (simp_all add: w')
  have A': "?A' = set (finished w) \<union> fst ` set rest \<union> {?n ..< ?n + ?k}"
    by (simp add: fw image_Un zip_ids Un_assoc)
  from inv have so: "stack_ok ?A {} (call_stack w)"
    and all: "?A \<union> fst ` set (call_stack w) = {0 ..< ?n}"
    by (simp_all add: worker_inv_def)
  have "?A \<union> {} \<subseteq> ?A' \<union> {tid}" by (auto simp: A' q)
  from stack_ok_mono[OF so this] have "stack_ok ?A' {tid} (call_stack w)" .
  moreover have "set ?ids \<subseteq> ?A' \<union> {}" by (auto simp: A')
  ultimately have 1: "stack_ok ?A' {} (call_stack w')" by (simp add: fw(2))
  have "?A' \<union> fst ` set (call_stack w') =
        (?A \<union> fst ` set (call_stack w)) \<union> {?n ..< ?n + ?k}"
    by (auto simp: A' q fw(2))
  also have "\<dots> = {0 ..< ?n + ?k}" unfolding all by auto
  finally have 2: "?A' \<union> fst ` set (call_stack w') = {0 ..< next_id w'}" by (simp add: fw(4))
  from 1 2 show ?thesis by (simp add: worker_inv_def)
qed

lemma return_inv:
  assumes inv: "worker_inv w" and cs: "call_stack w = (tid, waited) # outer"
  shows "worker_inv (w\<lparr>call_stack := outer, finished := tid # finished w\<rparr>)"
proof -
  let ?A = "set (finished w) \<union> fst ` set (queue w)"
  from inv cs have so: "stack_ok ?A {tid} outer"
    and all: "?A \<union> fst ` set (call_stack w) = {0 ..< next_id w}"
    by (simp_all add: worker_inv_def)
  have "?A \<union> {tid} \<subseteq> (insert tid ?A) \<union> {}" by auto
  from stack_ok_mono[OF so this] have "stack_ok (insert tid ?A) {} outer" .
  moreover have "insert tid ?A \<union> fst ` set outer = {0 ..< next_id w}"
    using all by (auto simp: cs)
  ultimately show ?thesis by (simp add: worker_inv_def Un_assoc insert_commute)
qed

lemma step_inv:
  assumes "worker_inv w" "worker_step w = Some w'"
  shows "worker_inv w'"
proof (cases "call_stack w")
  case Nil
  with assms show ?thesis by (auto simp: worker_step_def intro: pop_inv)
next
  case (Cons f outer)
  obtain tid waited where f: "f = (tid, waited)" by (cases f)
  show ?thesis
  proof (cases "\<forall>t \<in> set waited. t \<in> set (finished w)")
    case True
    with assms(2) Cons f have "w' = w\<lparr>call_stack := outer, finished := tid # finished w\<rparr>"
      by (simp add: worker_step_def)
    with return_inv[OF assms(1)] Cons f show ?thesis by simp
  next
    case False
    with assms(2) Cons f have "pop_and_execute w = Some w'" by (simp add: worker_step_def)
    with pop_inv[OF assms(1)] show ?thesis by simp
  qed
qed

lemma stuck_is_finished:
  assumes inv: "worker_inv w" and st: "worker_step w = None"
  shows "call_stack w = [] \<and> queue w = [] \<and> set (finished w) = {0 ..< next_id w}"
proof -
  have q: "queue w = []" if "pop_and_execute w = None"
    using that by (auto simp: pop_and_execute_def split: list.splits)
  have cs: "call_stack w = []"
  proof (rule ccontr)
    assume "call_stack w \<noteq> []"
    then obtain tid waited outer where c: "call_stack w = (tid, waited) # outer"
      by (cases "call_stack w") auto
    with st have nf: "\<not> (\<forall>t \<in> set waited. t \<in> set (finished w))" and "pop_and_execute w = None"
      by (auto simp: worker_step_def split: if_splits)
    then have "queue w = []" using q by simp
    moreover from inv c have "set waited \<subseteq> set (finished w) \<union> fst ` set (queue w)"
      by (simp add: worker_inv_def)
    ultimately show False using nf by auto
  qed
  with st have "queue w = []" using q by (simp add: worker_step_def)
  with cs inv show ?thesis by (simp add: worker_inv_def)
qed

lemma initial_inv: "worker_inv (single_worker jobs)"
  by (simp add: worker_inv_def single_worker_def schedule_jobs_def Let_def zip_ids[of 0, simplified])

lemma loop_terminates:
  "worker_inv w \<Longrightarrow> remaining_steps w < fuel \<Longrightarrow>
     \<exists>final. worker_loop fuel w = Some final \<and> worker_inv final \<and> worker_step final = None"
proof (induction fuel arbitrary: w)
  case 0 then show ?case by simp
next
  case (Suc fuel)
  show ?case
  proof (cases "worker_step w")
    case None
    with Suc.prems show ?thesis by simp
  next
    case (Some w')
    from step_measure[OF Some] Suc.prems(2) have "remaining_steps w' < fuel" by simp
    from Suc.IH[OF step_inv[OF Suc.prems(1) Some] this] Some show ?thesis by simp
  qed
qed

lemma steps_inv:
  "worker_inv w \<Longrightarrow> worker_steps k w = Some w' \<Longrightarrow> worker_inv w'"
proof (induction k arbitrary: w)
  case 0 then show ?case by simp
next
  case (Suc k)
  then obtain w1 where w1: "worker_step w = Some w1" "worker_steps k w1 = Some w'"
    by (auto split: option.splits)
  from Suc.IH[OF step_inv[OF Suc.prems(1) w1(1)] w1(2)] show ?case .
qed

text \<open>
  Claim C6. For every list of scheduled jobs whose payloads spawn subtasks and wait for
  them, to any depth, the single worker's run ends within the stated fuel, outside any
  task and with an empty queue, and every task that was ever scheduled, the given jobs
  among them, is DONE. No state the worker reaches is a deadlock.
\<close>

theorem single_worker_completes_nested_tasks:
  "(\<exists>final. worker_loop (Suc (remaining_steps (single_worker jobs))) (single_worker jobs) = Some final \<and>
       call_stack final = [] \<and> queue final = [] \<and>
       set (finished final) = {0 ..< next_id final} \<and> length jobs \<le> next_id final) \<and>
   (\<forall>k w. worker_steps k (single_worker jobs) = Some w \<longrightarrow> \<not> deadlocked w)"
proof (intro conjI allI impI)
  from loop_terminates[OF initial_inv, of jobs "Suc (remaining_steps (single_worker jobs))"]
  obtain final where f: "worker_loop (Suc (remaining_steps (single_worker jobs))) (single_worker jobs) = Some final"
    "worker_inv final" "worker_step final = None" by auto
  have mono: "next_id w \<le> next_id w'" if "worker_step w = Some w'" for w w'
    using that execute_fields
    by (auto simp: worker_step_def pop_and_execute_def split: list.splits if_splits)
  have loop_mono: "worker_loop fuel w = Some w' \<Longrightarrow> next_id w \<le> next_id w'" for fuel w w'
  proof (induction fuel arbitrary: w)
    case 0 then show ?case by simp
  next
    case (Suc fuel)
    then show ?case using mono by (fastforce split: option.splits)
  qed
  have "next_id (single_worker jobs) = length jobs"
    by (simp add: single_worker_def schedule_jobs_def Let_def)
  with loop_mono[OF f(1)] have "length jobs \<le> next_id final" by simp
  with f stuck_is_finished[OF f(2,3)]
  show "\<exists>final. worker_loop (Suc (remaining_steps (single_worker jobs))) (single_worker jobs) = Some final \<and>
       call_stack final = [] \<and> queue final = [] \<and>
       set (finished final) = {0 ..< next_id final} \<and> length jobs \<le> next_id final" by blast
next
  fix k w assume "worker_steps k (single_worker jobs) = Some w"
  from steps_inv[OF initial_inv this] have inv: "worker_inv w" .
  show "\<not> deadlocked w"
  proof
    assume "deadlocked w"
    then have "call_stack w \<noteq> []" "worker_step w = None" by (simp_all add: deadlocked_def)
    with stuck_is_finished[OF inv] show False by simp
  qed
qed




lemmas worker_defs = single_worker_def schedule_jobs_def worker_step_def pop_and_execute_def
  single_worker_guarantee_progress_def Let_def

lemma progress_loop:
  "worker_loop (Suc (remaining_steps (single_worker single_worker_guarantee_progress)))
     (single_worker single_worker_guarantee_progress) = Some progress_final"
  by code_simp

lemma progress_step:
  "worker_steps 1 (single_worker single_worker_guarantee_progress) = Some progress_waiting"
  by code_simp

lemma subtasks_total:
  "worker_loop 81 (single_worker increment_counter_in_subtasks) =
     Some \<lparr>queue = [], call_stack = [],
       finished = [0, 1, 2, 3, 4, 5, 6, 7, 8, 9, 39, 38, 37, 36, 35, 34, 33, 32, 31,
        30, 29, 28, 27, 26, 25, 24, 23, 22, 21, 20, 19, 18, 17, 16, 15, 14,
        13, 12, 11, 10], next_id = 40, shared_counter = 30, task_done = False\<rparr>"
  by code_simp

theorem single_worker_completes_nested_tasks_witness:
  "worker_loop (Suc (remaining_steps (single_worker single_worker_guarantee_progress)))
     (single_worker single_worker_guarantee_progress) = Some progress_final \<and>
   call_stack progress_final = [] \<and> queue progress_final = [] \<and>
   set (finished progress_final) = {0 ..< next_id progress_final} \<and>
   task_done progress_final \<and>
   worker_steps 1 (single_worker single_worker_guarantee_progress) = Some progress_waiting \<and>
   call_stack progress_waiting \<noteq> [] \<and>
   \<not> deadlocked progress_waiting"
proof -
  have a: "call_stack progress_final = []" "queue progress_final = []"
    "set (finished progress_final) = {0 ..< next_id progress_final}" "task_done progress_final"
    by (auto simp: progress_final_def)
  have b: "call_stack progress_waiting \<noteq> []" "\<not> deadlocked progress_waiting"
    by (simp_all add: progress_waiting_def deadlocked_def worker_step_def pop_and_execute_def)
  show ?thesis
    using single_worker_completes_nested_tasks[of single_worker_guarantee_progress]
    apply -
    apply (intro conjI)
    apply (rule progress_loop a b progress_step)+
    done
qed

end
